theory Spec2Isabelle
  imports Complex_Main "HOL-Library.AList" "HOL-Library.Multiset" "HOL-Library.Product_Lexorder"
begin

section \<open>Data model of the node editor\<close>

text \<open>
  The add-on works on objects of the host application. A node object is referred to by
  its identity (the host hashes and compares node objects by identity), so the model
  addresses nodes by a \<open>node_id\<close> and node groups (trees stored in the host's data
  base and shared by every group node that instantiates them) by a \<open>tree_id\<close>. Only
  the attributes that \<^verbatim>\<open>utils.py\<close> and the delete operator read or write are kept.
  Coordinates and sizes are exact numbers: rounding of the host's floating point values
  is outside this model.
\<close>

type_synonym node_id = nat
type_synonym tree_id = nat

record NodeLink =
  from_node :: node_id
  to_node :: node_id

record NodeSocket =
  links :: "NodeLink list"
  is_linked :: bool

record Node =
  name :: string
  type :: string
  bl_idname :: string
  label :: string
  location :: "real \<times> real"
  width :: real
  dimensions :: "real \<times> real"
  inputs :: "NodeSocket list"
  outputs :: "NodeSocket list"
  node_tree :: "tree_id option"
  parent :: "node_id option"

text \<open>
  A tree owns its nodes: \<open>nodes\<close> is the collection \<^verbatim>\<open>node_tree.nodes\<close>, each node
  object paired with its identity, in the order of the collection.
\<close>

record NodeTree =
  tree_name :: string
  nodes :: "(node_id \<times> Node) list"

text \<open>The record that \<^verbatim>\<open>find_unused_nodes\<close> builds for an unused node. The key
  \<^verbatim>\<open>"connected_to_output"\<close> may be absent from a dictionary (\<^verbatim>\<open>collect_group_usage\<close>
  tests for it), hence the option.\<close>

record unused_info =
  info_type :: string
  materials :: "string list"
  connected_to_output :: "string list option"
  parent_tree :: string

text \<open>
  A Python dictionary keyed by node objects, in insertion order: an entry holds the
  identity of the key, the node object that the key is, and the record stored under it.
  Assigning to a key that is present replaces its value in place, assigning to a new key
  appends it: this is \<^const>\<open>AList.update\<close>.
\<close>

type_synonym unused_dict = "(node_id \<times> Node \<times> unused_info) list"

definition dict_keys :: "unused_dict \<Rightarrow> (node_id \<times> Node) list" where
  "dict_keys d = map (\<lambda>(i, node, info). (i, node)) d"

text \<open>
  Python iterates over a set of node objects in an order fixed by their hashes, which the
  program does not control. The order is a parameter of the model: a function that
  rearranges the elements of the set.
\<close>

type_synonym set_order = "(node_id \<times> Node) list \<Rightarrow> (node_id \<times> Node) list"

definition iteration_order :: "set_order \<Rightarrow> bool" where
  "iteration_order io \<longleftrightarrow> (\<forall>xs. mset (io xs) = mset xs)"

section \<open>Graph accessor\<close>

definition output_types :: "string set" where
  "output_types = {''OUTPUT_MATERIAL'', ''OUTPUT_WORLD'', ''OUTPUT_LIGHT'',
     ''CompositorNodeComposite'', ''CompositorNodeOutputFile'',
     ''CompositorNodeViewer'', ''NodeGroupOutput''}"

definition get_output_nodes :: "NodeTree \<Rightarrow> node_id list" where
  "get_output_nodes tree =
     map fst (filter (\<lambda>(i, node). type node \<in> output_types) (nodes tree))"

section \<open>Reachability engine\<close>

text \<open>
  The two loops in the body of \<^verbatim>\<open>visit\<close> call \<^verbatim>\<open>visit(link.from_node)\<close> for every link
  of every input socket and then \<^verbatim>\<open>visit(link.to_node)\<close> for every link of every
  output socket: \<open>linked_nodes\<close> is the list of these arguments in the order of the calls.
\<close>

definition linked_nodes :: "Node \<Rightarrow> node_id list" where
  "linked_nodes node =
     concat (map (\<lambda>inp. map from_node (links inp)) (inputs node)) @
     concat (map (\<lambda>out. map to_node (links out)) (outputs node))"

text \<open>The sockets of a node are read from the tree that is traversed; a reference to a
  node that is not in the tree (which the host never produces) has no sockets to follow.\<close>

definition targets :: "NodeTree \<Rightarrow> node_id \<Rightarrow> node_id list" where
  "targets tree n =
     (case map_of (nodes tree) n of None \<Rightarrow> [] | Some node \<Rightarrow> linked_nodes node)"

definition universe :: "NodeTree \<Rightarrow> node_id set" where
  "universe tree = (\<Union>(i, node) \<in> set (nodes tree). set (linked_nodes node))"

lemma finite_universe: "finite (universe tree)"
  by (auto simp: universe_def)

lemma targets_universe: "set (targets tree n) \<subseteq> universe tree"
proof (cases "map_of (nodes tree) n")
  case None
  then show ?thesis by (simp add: targets_def)
next
  case (Some node)
  then have "(n, node) \<in> set (nodes tree)" by (rule map_of_SomeD)
  then have "set (linked_nodes node) \<subseteq> universe tree"
    unfolding universe_def by blast
  with Some show ?thesis by (simp add: targets_def)
qed

text \<open>
  \<^verbatim>\<open>visit\<close> with the set \<^verbatim>\<open>used\<close> passed through: \<open>visit\<close> is the function body,
  \<open>visit_links\<close> the loops over the links, each call seeing the set as the calls before
  left it. The recursion is nested, so its termination needs the fact that a call only
  adds to the set.
\<close>

function (sequential) visit :: "NodeTree \<Rightarrow> node_id \<Rightarrow> node_id set \<Rightarrow> node_id set"
  and visit_links :: "NodeTree \<Rightarrow> node_id list \<Rightarrow> node_id set \<Rightarrow> node_id set" where
  "visit tree n used =
     (if n \<in> used then used else visit_links tree (targets tree n) (insert n used))"
| "visit_links tree [] used = used"
| "visit_links tree (m # ms) used = visit_links tree ms (visit tree m used)"
  by pat_completeness auto

lemma visit_dom_mono:
  "visit_visit_links_dom (Inl (tree, n, used)) \<Longrightarrow> used \<subseteq> visit tree n used"
  "visit_visit_links_dom (Inr (tree, ms, used)) \<Longrightarrow> used \<subseteq> visit_links tree ms used"
proof (induction tree n used and tree ms used rule: visit_visit_links.pinduct)
  case (1 tree n used)
  then show ?case by (auto simp: visit.psimps)
next
  case (2 tree used)
  then show ?case by (simp add: visit_links.psimps)
next
  case (3 tree m ms used)
  then show ?case by (auto simp: visit_links.psimps)
qed

definition visit_measure ::
  "(NodeTree \<times> node_id \<times> node_id set) + (NodeTree \<times> node_id list \<times> node_id set) \<Rightarrow> nat \<times> nat"
  where
  "visit_measure a = (case a of
      Inl (tree, n, used) \<Rightarrow> (card ((universe tree \<union> {n}) - used), 0)
    | Inr (tree, ms, used) \<Rightarrow> (card ((universe tree \<union> set ms) - used), Suc (length ms)))"

termination visit
proof (relation "inv_image (less_than <*lex*> less_than) visit_measure")
  show "wf (inv_image (less_than <*lex*> less_than) visit_measure)"
    by (intro wf_inv_image wf_lex_prod wf_less_than)
next
  fix tree :: NodeTree and n :: node_id and used :: "node_id set"
  assume n: "n \<notin> used"
  have sub: "(universe tree \<union> set (targets tree n)) - insert n used
               \<subset> (universe tree \<union> {n}) - used"
    using n targets_universe [of tree n] by auto
  have "finite ((universe tree \<union> {n}) - used)"
    by (simp add: finite_universe)
  from psubset_card_mono [OF this sub]
  show "(Inr (tree, targets tree n, insert n used), Inl (tree, n, used))
        \<in> inv_image (less_than <*lex*> less_than) visit_measure"
    by (simp add: visit_measure_def)
next
  fix tree :: NodeTree and m :: node_id and ms :: "node_id list" and used :: "node_id set"
  have "card ((universe tree \<union> {m}) - used) \<le> card ((universe tree \<union> set (m # ms)) - used)"
    by (rule card_mono) (auto simp: finite_universe)
  then show "(Inl (tree, m, used), Inr (tree, m # ms, used))
        \<in> inv_image (less_than <*lex*> less_than) visit_measure"
    by (auto simp: visit_measure_def)
next
  fix tree :: NodeTree and m :: node_id and ms :: "node_id list" and used :: "node_id set"
  assume "visit_visit_links_dom (Inl (tree, m, used))"
  then have "used \<subseteq> visit tree m used" by (rule visit_dom_mono)
  then have "card ((universe tree \<union> set ms) - visit tree m used)
               \<le> card ((universe tree \<union> set (m # ms)) - used)"
    by (intro card_mono) (auto simp: finite_universe)
  then show "(Inr (tree, ms, visit tree m used), Inr (tree, m # ms, used))
        \<in> inv_image (less_than <*lex*> less_than) visit_measure"
    by (auto simp: visit_measure_def)
qed

definition traverse_from_outputs :: "NodeTree \<Rightarrow> node_id set" where
  "traverse_from_outputs tree = visit_links tree (get_output_nodes tree) {}"

text \<open>
  The same traversal with the set kept as the list of its elements in the order in which
  \<^verbatim>\<open>used.add(node)\<close> puts them in: the list has an entry for every time the body of
  \<^verbatim>\<open>visit\<close> runs past its guard.
\<close>

function (sequential) visit_order :: "NodeTree \<Rightarrow> node_id \<Rightarrow> node_id list \<Rightarrow> node_id list"
  and visit_links_order :: "NodeTree \<Rightarrow> node_id list \<Rightarrow> node_id list \<Rightarrow> node_id list" where
  "visit_order tree n seen =
     (if n \<in> set seen then seen else visit_links_order tree (targets tree n) (seen @ [n]))"
| "visit_links_order tree [] seen = seen"
| "visit_links_order tree (m # ms) seen = visit_links_order tree ms (visit_order tree m seen)"
  by pat_completeness auto

lemma visit_order_dom_mono:
  "visit_order_visit_links_order_dom (Inl (tree, n, seen)) \<Longrightarrow>
     set seen \<subseteq> set (visit_order tree n seen)"
  "visit_order_visit_links_order_dom (Inr (tree, ms, seen)) \<Longrightarrow>
     set seen \<subseteq> set (visit_links_order tree ms seen)"
proof (induction tree n seen and tree ms seen rule: visit_order_visit_links_order.pinduct)
  case (1 tree n seen)
  then show ?case by (auto simp: visit_order.psimps)
next
  case (2 tree seen)
  then show ?case by (simp add: visit_links_order.psimps)
next
  case (3 tree m ms seen)
  then show ?case by (auto simp: visit_links_order.psimps)
qed

termination visit_order
proof (relation "inv_image (less_than <*lex*> less_than)
    (\<lambda>a. visit_measure (map_sum (\<lambda>(tree, n, seen). (tree, n, set seen))
                                 (\<lambda>(tree, ms, seen). (tree, ms, set seen)) a))")
  show "wf (inv_image (less_than <*lex*> less_than)
    (\<lambda>a. visit_measure (map_sum (\<lambda>(tree, n, seen). (tree, n, set seen))
                                 (\<lambda>(tree, ms, seen). (tree, ms, set seen)) a)))"
    by (intro wf_inv_image wf_lex_prod wf_less_than)
next
  fix tree :: NodeTree and n :: node_id and seen :: "node_id list"
  assume n: "n \<notin> set seen"
  have sub: "(universe tree \<union> set (targets tree n)) - set (seen @ [n])
               \<subset> (universe tree \<union> {n}) - set seen"
    using n targets_universe [of tree n] by auto
  have "finite ((universe tree \<union> {n}) - set seen)"
    by (simp add: finite_universe)
  from psubset_card_mono [OF this sub]
  show "(Inr (tree, targets tree n, seen @ [n]), Inl (tree, n, seen))
        \<in> inv_image (less_than <*lex*> less_than)
    (\<lambda>a. visit_measure (map_sum (\<lambda>(tree, n, seen). (tree, n, set seen))
                                 (\<lambda>(tree, ms, seen). (tree, ms, set seen)) a))"
    by (simp add: visit_measure_def)
next
  fix tree :: NodeTree and m :: node_id and ms :: "node_id list" and seen :: "node_id list"
  have "card ((universe tree \<union> {m}) - set seen) \<le> card ((universe tree \<union> set (m # ms)) - set seen)"
    by (rule card_mono) (auto simp: finite_universe)
  then show "(Inl (tree, m, seen), Inr (tree, m # ms, seen))
        \<in> inv_image (less_than <*lex*> less_than)
    (\<lambda>a. visit_measure (map_sum (\<lambda>(tree, n, seen). (tree, n, set seen))
                                 (\<lambda>(tree, ms, seen). (tree, ms, set seen)) a))"
    by (auto simp: visit_measure_def)
next
  fix tree :: NodeTree and m :: node_id and ms :: "node_id list" and seen :: "node_id list"
  assume "visit_order_visit_links_order_dom (Inl (tree, m, seen))"
  then have "set seen \<subseteq> set (visit_order tree m seen)" by (rule visit_order_dom_mono)
  then have "card ((universe tree \<union> set ms) - set (visit_order tree m seen))
               \<le> card ((universe tree \<union> set (m # ms)) - set seen)"
    by (intro card_mono) (auto simp: finite_universe)
  then show "(Inr (tree, ms, visit_order tree m seen), Inr (tree, m # ms, seen))
        \<in> inv_image (less_than <*lex*> less_than)
    (\<lambda>a. visit_measure (map_sum (\<lambda>(tree, n, seen). (tree, n, set seen))
                                 (\<lambda>(tree, ms, seen). (tree, ms, set seen)) a))"
    by (auto simp: visit_measure_def)
qed


text \<open>The sets \<^verbatim>\<open>all_nodes\<close> and \<^verbatim>\<open>unused_nodes\<close> of \<^verbatim>\<open>find_unused_nodes\<close>
  (lines 123 and 124), before the attribute filter.\<close>

definition all_nodes :: "NodeTree \<Rightarrow> node_id set" where
  "all_nodes tree = set (map fst (nodes tree))"

definition unused_nodes :: "NodeTree \<Rightarrow> node_id set" where
  "unused_nodes tree = all_nodes tree - traverse_from_outputs tree"

definition is_attribute :: "Node \<Rightarrow> bool" where
  "is_attribute node \<longleftrightarrow>
     type node = ''ATTRIBUTE'' \<or>
     bl_idname node \<in> {''ShaderNodeAttribute'', ''GeometryNodeInputNamedAttribute''}"

definition new_info :: "Node \<Rightarrow> string \<Rightarrow> unused_info" where
  "new_info node tname =
     \<lparr>info_type = type node, materials = [], connected_to_output = Some [],
      parent_tree = tname\<rparr>"

text \<open>
  \<^verbatim>\<open>find_unused_nodes(node_tree, parent_tree_name, show_attributes)\<close>. The argument is
  \<open>None\<close> for Python's \<^verbatim>\<open>None\<close>; both guards return the empty dictionary.
\<close>

definition find_unused_nodes ::
  "set_order \<Rightarrow> NodeTree option \<Rightarrow> string \<Rightarrow> bool \<Rightarrow> unused_dict" where
  "find_unused_nodes io tree_opt parent_tree_name show_attributes =
     (case tree_opt of
        None \<Rightarrow> []
      | Some tree \<Rightarrow>
          if get_output_nodes tree = [] then []
          else
            let unused = filter (\<lambda>(i, node). i \<in> unused_nodes tree) (nodes tree);
                shown = (if \<not> show_attributes
                         then filter (\<lambda>(i, node). \<not> is_attribute node) unused
                         else unused);
                tname = (if parent_tree_name \<noteq> [] then parent_tree_name else tree_name tree)
            in fold (\<lambda>(i, node) d. AList.update i (node, new_info node tname) d) (io shown) [])"

text \<open>The links of a tree connect nodes of that tree: both ends of every link on a
  socket of a node of the tree are nodes of the tree. The host keeps this for every tree.\<close>

definition links_inside :: "NodeTree \<Rightarrow> bool" where
  "links_inside tree \<longleftrightarrow>
     (\<forall>(i, node) \<in> set (nodes tree). \<forall>s \<in> set (inputs node @ outputs node).
        \<forall>l \<in> set (links s). from_node l \<in> all_nodes tree \<and> to_node l \<in> all_nodes tree)"

section \<open>Recursive group expander\<close>

text \<open>\<^verbatim>\<open>unused_dict.update(nested_unused)\<close>: the items of the second dictionary are
  assigned in their order.\<close>

definition dict_update :: "unused_dict \<Rightarrow> unused_dict \<Rightarrow> unused_dict" where
  "dict_update d nested = fold (\<lambda>(k, v) acc. AList.update k v acc) nested d"

definition nested_tree_name :: "string \<Rightarrow> Node \<Rightarrow> string" where
  "nested_tree_name parent_tree_name node =
     (if parent_tree_name \<noteq> [] then parent_tree_name @ ''.'' @ name node else name node)"

text \<open>
  \<^verbatim>\<open>find_unused_nodes_recursive\<close>. The payload of a group node is looked up in the host's
  node groups \<open>groups\<close>. Nothing in the function stops a group that contains an instance
  of itself, so the recursion carries the depth that is left: at depth \<open>0\<close> the result
  is \<open>None\<close> (Python gives up with a \<^verbatim>\<open>RecursionError\<close>). \<open>recurse_groups\<close> is the loop
  over \<^verbatim>\<open>list(unused_dict.keys())\<close>, the keys as they were before the loop.
\<close>

fun find_unused_nodes_recursive ::
    "nat \<Rightarrow> set_order \<Rightarrow> (tree_id \<Rightarrow> NodeTree) \<Rightarrow> NodeTree option \<Rightarrow> string \<Rightarrow> bool
      \<Rightarrow> unused_dict option"
  and recurse_groups ::
    "nat \<Rightarrow> set_order \<Rightarrow> (tree_id \<Rightarrow> NodeTree) \<Rightarrow> string \<Rightarrow> bool
      \<Rightarrow> (node_id \<times> Node) list \<Rightarrow> unused_dict \<Rightarrow> unused_dict option" where
  "find_unused_nodes_recursive 0 io groups tree_opt parent_tree_name show_attributes = None"
| "find_unused_nodes_recursive (Suc depth) io groups None parent_tree_name show_attributes =
     Some []"
| "find_unused_nodes_recursive (Suc depth) io groups (Some tree) parent_tree_name show_attributes =
     (let d = find_unused_nodes io (Some tree) parent_tree_name show_attributes
      in recurse_groups depth io groups parent_tree_name show_attributes (dict_keys d) d)"
| "recurse_groups depth io groups parent_tree_name show_attributes [] d = Some d"
| "recurse_groups depth io groups parent_tree_name show_attributes ((k, node) # ks) d =
     (case node_tree node of
        None \<Rightarrow> recurse_groups depth io groups parent_tree_name show_attributes ks d
      | Some g \<Rightarrow>
          if type node = ''GROUP'' then
            (case find_unused_nodes_recursive depth io groups (Some (groups g))
                    (nested_tree_name parent_tree_name node) show_attributes of
               None \<Rightarrow> None
             | Some nested \<Rightarrow>
                 recurse_groups depth io groups parent_tree_name show_attributes ks
                   (dict_update d nested))
          else recurse_groups depth io groups parent_tree_name show_attributes ks d)"





section \<open>Usage aggregator\<close>

text \<open>A material: its name, the flag \<^verbatim>\<open>use_nodes\<close> and its node tree, if it has one.\<close>

record Material =
  material_name :: string
  use_nodes :: bool
  material_tree :: "NodeTree option"

text \<open>\<^verbatim>\<open>is_group_connected_to_output(group_node, node_tree)\<close>: some output socket of the
  group node is linked.\<close>

definition is_group_connected_to_output :: "Node option \<Rightarrow> NodeTree option \<Rightarrow> bool" where
  "is_group_connected_to_output group_node tree_opt =
     (case group_node of
        None \<Rightarrow> False
      | Some node \<Rightarrow>
          (case tree_opt of
             None \<Rightarrow> False
           | Some tree \<Rightarrow>
               if outputs node = [] then False
               else list_ex is_linked (outputs node)))"

text \<open>The list under \<^verbatim>\<open>"connected_to_output"\<close>, empty when the key is absent.\<close>

definition connected_list :: "unused_info \<Rightarrow> string list" where
  "connected_list info = (case connected_to_output info of None \<Rightarrow> [] | Some c \<Rightarrow> c)"

text \<open>The body of the innermost loop of \<^verbatim>\<open>collect_group_usage\<close>, for the group node
  \<open>node\<close> of the material's tree and one item \<open>(unused_node, info)\<close> of the
  dictionary; the record is changed in place, so the result is the new record.\<close>

definition record_usage :: "string \<Rightarrow> Node \<Rightarrow> NodeTree \<Rightarrow> Node \<Rightarrow> unused_info \<Rightarrow> unused_info" where
  "record_usage mname node tree unused_node info =
     (if type unused_node = ''GROUP'' \<and> node_tree unused_node = node_tree node
         \<and> mname \<notin> set (materials info)
      then
        let info1 = info\<lparr>materials := materials info @ [mname]\<rparr>;
            info2 = (case connected_to_output info1 of
                       None \<Rightarrow> info1\<lparr>connected_to_output := Some []\<rparr>
                     | Some c \<Rightarrow> info1)
        in if mname \<notin> set (connected_list info2)
           then (if is_group_connected_to_output (Some node) (Some tree)
                 then info2\<lparr>connected_to_output := Some (connected_list info2 @ [mname])\<rparr>
                 else info2)
           else info2
      else info)"

text \<open>The loop over the items of the dictionary for one node of the material's tree.\<close>

definition usage_of_node :: "string \<Rightarrow> NodeTree \<Rightarrow> Node \<Rightarrow> unused_dict \<Rightarrow> unused_dict" where
  "usage_of_node mname tree node d =
     (if type node = ''GROUP'' \<and> node_tree node \<noteq> None
      then map (\<lambda>(k, unused_node, info). (k, unused_node, record_usage mname node tree unused_node info)) d
      else d)"

text \<open>The body of the loop over the materials.\<close>

definition usage_of_material :: "Material \<Rightarrow> unused_dict \<Rightarrow> unused_dict" where
  "usage_of_material material d =
     (case material_tree material of
        None \<Rightarrow> d
      | Some tree \<Rightarrow>
          if \<not> use_nodes material then d
          else fold (\<lambda>(i, node) acc. usage_of_node (material_name material) tree node acc)
                 (nodes tree) d)"

definition collect_group_usage :: "unused_dict \<Rightarrow> Material list \<Rightarrow> unused_dict" where
  "collect_group_usage d mats = fold usage_of_material mats d"

text \<open>What the lists of a record are meant to satisfy: the connected list is within the
  materials list and neither repeats a name. \<open>fixed_part\<close> is what
  \<^verbatim>\<open>collect_group_usage\<close> never writes: keys, node objects, type and parent tree.\<close>

definition lists_ok :: "unused_info \<Rightarrow> bool" where
  "lists_ok info \<longleftrightarrow>
     set (connected_list info) \<subseteq> set (materials info)
     \<and> distinct (materials info) \<and> distinct (connected_list info)"

definition records_ok :: "unused_dict \<Rightarrow> bool" where
  "records_ok d \<longleftrightarrow> (\<forall>(k, unused_node, info) \<in> set d. lists_ok info)"

definition fixed_part :: "unused_dict \<Rightarrow> (node_id \<times> Node \<times> string \<times> string) list" where
  "fixed_part d = map (\<lambda>(k, unused_node, info). (k, unused_node, info_type info, parent_tree info)) d"

section \<open>Delete operator\<close>

text \<open>
  \<^verbatim>\<open>NODE_OT_DeleteUnusedNodes.execute\<close>. What the operator returns and what it reports
  are values; the exceptions that its \<^verbatim>\<open>except Exception\<close> clause catches are a
  \<^verbatim>\<open>RuntimeError\<close> of the host and the \<^verbatim>\<open>RecursionError\<close> of an analysis that ran out
  of depth.
\<close>

datatype py_error = RuntimeError | RecursionError | ZeroDivisionError | IndexError

datatype status = FINISHED | CANCELLED

datatype report = WARNING_no_tree | INFO_none_found | INFO_deleted nat | ERROR py_error

text \<open>
  The host's \<^verbatim>\<open>tree.nodes.remove(node)\<close>: a node of the tree is removed together with
  the links attached to it; for a node that is not in this tree the host raises a
  \<^verbatim>\<open>RuntimeError\<close>.
\<close>

definition unlink :: "node_id \<Rightarrow> NodeSocket \<Rightarrow> NodeSocket" where
  "unlink n sock =
     (let kept = filter (\<lambda>l. from_node l \<noteq> n \<and> to_node l \<noteq> n) (links sock)
      in sock\<lparr>links := kept, is_linked := is_linked sock \<and> kept \<noteq> []\<rparr>)"

definition nodes_remove :: "NodeTree \<Rightarrow> node_id \<Rightarrow> py_error + NodeTree" where
  "nodes_remove tree n =
     (if n \<notin> all_nodes tree then Inl RuntimeError
      else Inr (tree\<lparr>nodes :=
             map (\<lambda>(i, node). (i, node\<lparr>inputs := map (unlink n) (inputs node),
                                          outputs := map (unlink n) (outputs node)\<rparr>))
               (filter (\<lambda>(i, node). i \<noteq> n) (nodes tree))\<rparr>))"

text \<open>The loop \<^verbatim>\<open>for node in unused_dict.keys(): tree.nodes.remove(node)\<close>; it ends at
  the first exception, and what was removed before stays removed.\<close>

fun remove_all :: "NodeTree \<Rightarrow> node_id list \<Rightarrow> NodeTree \<times> py_error option" where
  "remove_all tree [] = (tree, None)"
| "remove_all tree (n # ns) =
     (case nodes_remove tree n of
        Inl e \<Rightarrow> (tree, Some e)
      | Inr tree' \<Rightarrow> remove_all tree' ns)"

text \<open>The operator on the active tree (\<open>None\<close> when the editor shows no tree), with
  the default arguments of the analysis: empty parent name, attributes shown.\<close>

definition DeleteUnusedNodes_execute ::
  "nat \<Rightarrow> set_order \<Rightarrow> (tree_id \<Rightarrow> NodeTree) \<Rightarrow> NodeTree option
     \<Rightarrow> status \<times> report \<times> NodeTree option" where
  "DeleteUnusedNodes_execute depth io groups active_tree =
     (case active_tree of
        None \<Rightarrow> (CANCELLED, WARNING_no_tree, None)
      | Some tree \<Rightarrow>
          (case find_unused_nodes_recursive depth io groups (Some tree) [] True of
             None \<Rightarrow> (CANCELLED, ERROR RecursionError, Some tree)
           | Some d \<Rightarrow>
               if d = [] then (FINISHED, INFO_none_found, Some tree)
               else
                 (case remove_all tree (map fst d) of
                    (tree', Some e) \<Rightarrow> (CANCELLED, ERROR e, Some tree')
                  | (tree', None) \<Rightarrow> (FINISHED, INFO_deleted (length d), Some tree'))))"

section \<open>Layout engine\<close>

text \<open>
  The layout functions write to node objects that the lists passed to them share, so here
  the objects live in a store addressed by node identity; every identity has an object,
  as every reference has in Python.
\<close>

type_synonym node_store = "node_id \<Rightarrow> Node"

definition set_location :: "node_store \<Rightarrow> node_id \<Rightarrow> real \<times> real \<Rightarrow> node_store" where
  "set_location objs n loc = objs(n := (objs n)\<lparr>location := loc\<rparr>)"

definition loc_x :: "node_store \<Rightarrow> node_id \<Rightarrow> real" where
  "loc_x objs n = fst (location (objs n))"

definition loc_y :: "node_store \<Rightarrow> node_id \<Rightarrow> real" where
  "loc_y objs n = snd (location (objs n))"

text \<open>\<^verbatim>\<open>s.replace(old, "")\<close> for a non-empty \<open>old\<close>: every occurrence is removed, from
  left to right.\<close>

function str_remove :: "string \<Rightarrow> string \<Rightarrow> string" where
  "str_remove old s =
     (if s = [] \<or> old = [] then s
      else if take (length old) s = old then str_remove old (drop (length old) s)
      else hd s # str_remove old (tl s))"
  by pat_completeness auto
termination
  by (relation "measure (\<lambda>(old, s). length s)") (auto simp: neq_Nil_conv)

text \<open>A node generated by the add-on carries the label \<^verbatim>\<open>_tmp_attr\<close>.\<close>

definition is_tmp_attr :: "Node \<Rightarrow> bool" where
  "is_tmp_attr node \<longleftrightarrow> label node = ''_tmp_attr''"

text \<open>The dictionary \<^verbatim>\<open>attr_to_parent\<close>: every attribute node with the first regular node
  named like it without \<^verbatim>\<open>Attr_\<close>, in the order of the list passed in.\<close>

definition attr_parents :: "node_store \<Rightarrow> node_id list \<Rightarrow> node_id list \<Rightarrow> (node_id \<times> node_id) list" where
  "attr_parents objs attr_nodes regular_nodes =
     fold (\<lambda>attr d.
             case find (\<lambda>p. name (objs p) = str_remove ''Attr_'' (name (objs attr))) regular_nodes of
               None \<Rightarrow> d
             | Some p \<Rightarrow> AList.update attr p d)
       attr_nodes []"

text \<open>Python's list index: a negative index counts from the end, an index out of range
  raises \<^verbatim>\<open>IndexError\<close>.\<close>

definition py_index :: "'a list \<Rightarrow> int \<Rightarrow> nat option" where
  "py_index xs k =
     (if 0 \<le> k \<and> k < int (length xs) then Some (nat k)
      else if - int (length xs) \<le> k \<and> k < 0 then Some (nat (int (length xs) + k))
      else None)"

type_synonym grid_state = "real list \<times> real list \<times> node_id list list"

text \<open>The body of the loop over \<^verbatim>\<open>enumerate(regular_nodes)\<close>, on the three lists
  \<^verbatim>\<open>col_w\<close>, \<^verbatim>\<open>row_h\<close> and \<^verbatim>\<open>grid\<close>; \<^verbatim>\<open>i % cols\<close> raises for \<open>cols = 0\<close>.\<close>

definition grid_step :: "node_store \<Rightarrow> int \<Rightarrow> nat \<times> node_id \<Rightarrow> grid_state \<Rightarrow> py_error + grid_state" where
  "grid_step objs cols e st =
     (case e of (i, node) \<Rightarrow> case st of (col_w, row_h, grid) \<Rightarrow>
        if cols = 0 then Inl ZeroDivisionError
        else
          let c = int i mod cols;
              r = int i div cols;
              grown = int (length grid) \<le> r;
              grid1 = (if grown then grid @ [[]] else grid);
              row_h1 = (if grown then row_h @ [0] else row_h)
          in case py_index grid1 r of
               None \<Rightarrow> Inl IndexError
             | Some gr \<Rightarrow>
                 (case py_index col_w c of
                    None \<Rightarrow> Inl IndexError
                  | Some wc \<Rightarrow>
                      (case py_index row_h1 r of
                         None \<Rightarrow> Inl IndexError
                       | Some hr \<Rightarrow>
                           Inr (col_w[wc := max (col_w ! wc) (width (objs node))],
                                row_h1[hr := max (row_h1 ! hr) (snd (dimensions (objs node)))],
                                grid1[gr := grid1 ! gr @ [node]]))))"

fun grid_loop :: "node_store \<Rightarrow> int \<Rightarrow> (nat \<times> node_id) list \<Rightarrow> grid_state \<Rightarrow> py_error + grid_state" where
  "grid_loop objs cols [] st = Inr st"
| "grid_loop objs cols (e # es) st =
     (case grid_step objs cols e st of
        Inl err \<Rightarrow> Inl err
      | Inr st' \<Rightarrow> grid_loop objs cols es st')"

text \<open>The two nested loops that assign \<^verbatim>\<open>n.location = (x, y)\<close>.\<close>

definition place_row ::
  "real list \<Rightarrow> real \<Rightarrow> real \<Rightarrow> real \<Rightarrow> node_id list \<Rightarrow> node_store \<Rightarrow> node_store" where
  "place_row col_w origin_x gap_x y row objs =
     fold (\<lambda>(c, n) os. set_location os n (origin_x + sum_list (take c col_w) + real c * gap_x, y))
       (enumerate 0 row) objs"

definition place_grid ::
  "real list \<Rightarrow> real list \<Rightarrow> real \<Rightarrow> real \<Rightarrow> real \<Rightarrow> real \<Rightarrow> node_id list list \<Rightarrow> node_store
     \<Rightarrow> node_store" where
  "place_grid col_w row_h origin_x origin_y gap_x gap_y grid objs =
     fold (\<lambda>(r, row) os.
             place_row col_w origin_x gap_x (origin_y - sum_list (take r row_h) - real r * gap_y) row os)
       (enumerate 0 grid) objs"

text \<open>The loop over \<^verbatim>\<open>attr_to_parent.items()\<close>: first the x, then the y coordinate of
  the attribute node, read from its parent as it is by then.\<close>

definition place_attrs :: "(node_id \<times> node_id) list \<Rightarrow> node_store \<Rightarrow> node_store" where
  "place_attrs attr_to_parent objs =
     fold (\<lambda>(attr, p) os.
             let os1 = set_location os attr (loc_x os p - 150, loc_y os attr)
             in set_location os1 attr (loc_x os1 attr, loc_y os1 p))
       attr_to_parent objs"

text \<open>\<^verbatim>\<open>min\<close> and \<^verbatim>\<open>max\<close> of a generator; the lists they are applied to are not empty.\<close>

fun list_min :: "real list \<Rightarrow> real" where
  "list_min [] = 0"
| "list_min [x] = x"
| "list_min (x # y # ys) = min x (list_min (y # ys))"

fun list_max :: "real list \<Rightarrow> real" where
  "list_max [] = 0"
| "list_max [x] = x"
| "list_max (x # y # ys) = max x (list_max (y # ys))"

text \<open>\<^verbatim>\<open>sorted(regular_nodes, key=lambda n: (-n.location.y, n.location.x))\<close>: a stable sort
  on the pairs in lexicographic order.\<close>

definition sort_nodes :: "node_store \<Rightarrow> node_id list \<Rightarrow> node_id list" where
  "sort_nodes objs ns = sort_key (\<lambda>n. (- loc_y objs n, loc_x objs n)) ns"

definition attr_nodes :: "node_store \<Rightarrow> node_id list \<Rightarrow> node_id list" where
  "attr_nodes objs ns = filter (\<lambda>n. is_tmp_attr (objs n)) ns"

definition regular_nodes :: "node_store \<Rightarrow> node_id list \<Rightarrow> node_id list" where
  "regular_nodes objs ns = filter (\<lambda>n. \<not> is_tmp_attr (objs n)) ns"

text \<open>\<^verbatim>\<open>layout_nodes_grid(nodes, cols, gap_x, gap_y)\<close>, returning the store after the
  writes, or the exception raised.\<close>

definition layout_nodes_grid ::
  "node_store \<Rightarrow> node_id list \<Rightarrow> int \<Rightarrow> real \<Rightarrow> real \<Rightarrow> py_error + node_store" where
  "layout_nodes_grid objs ns cols gap_x gap_y =
     (if ns = [] then Inr objs
      else
        let attr_to_parent = attr_parents objs (attr_nodes objs ns) (regular_nodes objs ns)
        in if regular_nodes objs ns = [] then Inr objs
           else
             let sorted_nodes = sort_nodes objs (regular_nodes objs ns)
             in case grid_loop objs cols (enumerate 0 sorted_nodes) (replicate (nat cols) 0, [], []) of
                  Inl err \<Rightarrow> Inl err
                | Inr (col_w, row_h, grid) \<Rightarrow>
                    let origin_x = list_min (map (loc_x objs) sorted_nodes);
                        origin_y = list_max (map (loc_y objs) sorted_nodes);
                        objs1 = place_grid col_w row_h origin_x origin_y gap_x gap_y grid objs
                    in Inr (place_attrs attr_to_parent objs1))"

text \<open>The host's \<^verbatim>\<open>tree.nodes.new(idname)\<close>: a new node object, with an identity that no
  node of the tree has, is appended to the tree's node collection \<open>ids\<close>. The values
  of its attributes are the host's defaults and play no role below.\<close>

definition new_node :: "string \<Rightarrow> Node" where
  "new_node idname =
     \<lparr>name = ''Frame'', type = ''FRAME'', bl_idname = idname, label = [], location = (0, 0),
      width = 150, dimensions = (0, 0), inputs = [], outputs = [], node_tree = None,
      parent = None\<rparr>"

definition nodes_new :: "node_store \<Rightarrow> node_id list \<Rightarrow> string \<Rightarrow> node_store \<times> node_id list \<times> node_id" where
  "nodes_new objs ids idname =
     (let fresh = Suc (fold max ids 0)
      in (objs(fresh := new_node idname), ids @ [fresh], fresh))"

text \<open>The loops \<^verbatim>\<open>n.location.x += dx\<close> and \<^verbatim>\<open>n.parent = frame\<close> over the group nodes.\<close>

definition shift_x :: "real \<Rightarrow> node_id list \<Rightarrow> node_store \<Rightarrow> node_store" where
  "shift_x dx ns objs = fold (\<lambda>n os. set_location os n (loc_x os n + dx, loc_y os n)) ns objs"

definition set_parent :: "node_id \<Rightarrow> node_id list \<Rightarrow> node_store \<Rightarrow> node_store" where
  "set_parent frame ns objs = fold (\<lambda>n os. os(n := (os n)\<lparr>parent := Some frame\<rparr>)) ns objs"

text \<open>\<^verbatim>\<open>place_group_left_of_used(tree, group_nodes, used_nodes, margin)\<close>: the result is
  the store, the tree's node collection and the frame returned (\<open>None\<close> for Python's
  \<^verbatim>\<open>None\<close>).\<close>

definition place_group_left_of_used ::
  "node_store \<Rightarrow> node_id list \<Rightarrow> node_id list \<Rightarrow> node_id list \<Rightarrow> real
     \<Rightarrow> py_error + (node_store \<times> node_id list \<times> node_id option)" where
  "place_group_left_of_used objs tree_nodes group_nodes used_nodes margin =
     (if group_nodes = [] then Inr (objs, tree_nodes, None)
      else
        case layout_nodes_grid objs group_nodes 6 120 80 of
          Inl err \<Rightarrow> Inl err
        | Inr objs1 \<Rightarrow>
            let used_min_x = (if used_nodes = [] then 0 else list_min (map (loc_x objs1) used_nodes));
                max_group_x = list_max (map (loc_x objs1) group_nodes);
                dx = (used_min_x - margin) - max_group_x;
                objs2 = shift_x dx group_nodes objs1;
                xs = map (loc_x objs2) group_nodes;
                ys = map (loc_y objs2) group_nodes
            in case nodes_new objs2 tree_nodes ''NodeFrame'' of
                 (objs3, tree_nodes', frame) \<Rightarrow>
                   let objs4 = objs3(frame := (objs3 frame)
                                 \<lparr>label := ''The Material Editor Exterminatus'',
                                  location := (list_min xs - 40, list_max ys + 40),
                                  width := 0\<rparr>)
                   in Inr (set_parent frame group_nodes objs4, tree_nodes', Some frame))"

text \<open>
  The grid as the specification words it, for a list of nodes in sorted order and a
  number of columns: node \<open>j\<close> is assigned to column \<open>j mod cols\<close> and row
  \<open>j div cols\<close>; a column is as wide as its widest node and a row as high as its highest
  node, and neither is below 0, the value the lists start with.
\<close>

definition col_width :: "node_store \<Rightarrow> nat \<Rightarrow> node_id list \<Rightarrow> nat \<Rightarrow> real" where
  "col_width objs cols ns c =
     Max (set (0 # map (\<lambda>j. width (objs (ns ! j))) (filter (\<lambda>j. j mod cols = c) [0..<length ns])))"

definition row_height :: "node_store \<Rightarrow> nat \<Rightarrow> node_id list \<Rightarrow> nat \<Rightarrow> real" where
  "row_height objs cols ns r =
     Max (set (0 # map (\<lambda>j. snd (dimensions (objs (ns ! j)))) (filter (\<lambda>j. j div cols = r) [0..<length ns])))"

text \<open>The position of the node at index \<open>i\<close>, that is at row \<open>i div cols\<close> and column
  \<open>i mod cols\<close>: the origin is the least x and the greatest y of the sorted nodes.\<close>

definition cell_position ::
  "node_store \<Rightarrow> nat \<Rightarrow> real \<Rightarrow> real \<Rightarrow> node_id list \<Rightarrow> nat \<Rightarrow> real \<times> real" where
  "cell_position objs cols gap_x gap_y ordered i =
     (Min (loc_x objs ` set ordered) + (\<Sum>c<i mod cols. col_width objs cols ordered c)
        + real (i mod cols) * gap_x,
      Max (loc_y objs ` set ordered) - (\<Sum>r<i div cols. row_height objs cols ordered r)
        - real (i div cols) * gap_y)"

text \<open>The least x of the used nodes (0 when there are none) and the shift
  \<open>dx = (min-x of used nodes - margin) - max-x of group nodes\<close>.\<close>

definition used_min_x :: "node_store \<Rightarrow> node_id list \<Rightarrow> real" where
  "used_min_x objs used_nodes =
     (if used_nodes = [] then 0 else Min (loc_x objs ` set used_nodes))"

definition group_shift :: "node_store \<Rightarrow> node_id list \<Rightarrow> node_id list \<Rightarrow> real \<Rightarrow> real" where
  "group_shift objs group_nodes used_nodes margin =
     (used_min_x objs used_nodes - margin) - Max (loc_x objs ` set group_nodes)"

section \<open>Example graphs\<close>

definition plain_node :: "string \<Rightarrow> string \<Rightarrow> NodeSocket list \<Rightarrow> NodeSocket list \<Rightarrow> Node" where
  "plain_node nm ty ins outs =
     \<lparr>name = nm, type = ty, bl_idname = [], label = [], location = (0, 0), width = 140,
      dimensions = (140, 100), inputs = ins, outputs = outs, node_tree = None, parent = None\<rparr>"

definition socket :: "NodeLink list \<Rightarrow> NodeSocket" where
  "socket ls = \<lparr>links = ls, is_linked = (ls \<noteq> [])\<rparr>"

definition link :: "node_id \<Rightarrow> node_id \<Rightarrow> NodeLink" where
  "link a b = \<lparr>from_node = a, to_node = b\<rparr>"

text \<open>A material output 1 fed by node 2, and node 3 without links.\<close>

definition small_tree :: NodeTree where
  "small_tree = \<lparr>tree_name = ''Material'', nodes =
     [(1, plain_node ''Output'' ''OUTPUT_MATERIAL'' [socket [link 2 1]] []),
      (2, plain_node ''A'' ''BSDF_PRINCIPLED'' [socket []] [socket [link 2 1]]),
      (3, plain_node ''B'' ''TEX_IMAGE'' [] [socket []])]\<rparr>"

text \<open>Three nodes linked in a chain 1 \<rightarrow> 2 \<rightarrow> 3, none of them an output node.\<close>

definition no_output_tree :: NodeTree where
  "no_output_tree = \<lparr>tree_name = ''Chain'', nodes =
     [(1, plain_node ''A'' ''TEX_IMAGE'' [] [socket [link 1 2]]),
      (2, plain_node ''B'' ''MIX_RGB'' [socket [link 1 2]] [socket [link 2 3]]),
      (3, plain_node ''C'' ''BSDF_DIFFUSE'' [socket [link 2 3]] [])]\<rparr>"

text \<open>A material output 1 fed by node 2 and nothing else.\<close>

definition used_tree :: NodeTree where
  "used_tree = \<lparr>tree_name = ''Material'', nodes =
     [(1, plain_node ''Output'' ''OUTPUT_MATERIAL'' [socket [link 2 1]] []),
      (2, plain_node ''A'' ''BSDF_PRINCIPLED'' [socket []] [socket [link 2 1]])]\<rparr>"

definition no_groups :: "tree_id \<Rightarrow> NodeTree" where
  "no_groups g = \<lparr>tree_name = [], nodes = []\<rparr>"

definition group_node :: "string \<Rightarrow> tree_id \<Rightarrow> NodeSocket list \<Rightarrow> NodeSocket list \<Rightarrow> Node" where
  "group_node nm g ins outs = (plain_node nm ''GROUP'' ins outs)\<lparr>node_tree := Some g\<rparr>"

text \<open>Two materials instantiate node group 7: in \<open>A\<close> the output of the group node is
  not linked, in \<open>B\<close> it feeds the material output.\<close>

definition tree_A :: NodeTree where
  "tree_A = \<lparr>tree_name = ''A tree'', nodes =
     [(1, plain_node ''Output'' ''OUTPUT_MATERIAL'' [socket []] []),
      (2, group_node ''Group'' 7 [] [socket []])]\<rparr>"

definition tree_B :: NodeTree where
  "tree_B = \<lparr>tree_name = ''B tree'', nodes =
     [(3, plain_node ''Output'' ''OUTPUT_MATERIAL'' [socket [link 4 3]] []),
      (4, group_node ''Group'' 7 [] [socket [link 4 3]])]\<rparr>"

definition mat_A :: Material where
  "mat_A = \<lparr>material_name = ''A'', use_nodes = True, material_tree = Some tree_A\<rparr>"

definition mat_B :: Material where
  "mat_B = \<lparr>material_name = ''B'', use_nodes = True, material_tree = Some tree_B\<rparr>"


text \<open>Material \<open>C\<close> instantiates node group 7 twice: the output of group node 2 is not
  linked, the output of group node 3 feeds the material output.\<close>

definition tree_C :: NodeTree where
  "tree_C = \<lparr>tree_name = ''C tree'', nodes =
     [(1, plain_node ''Output'' ''OUTPUT_MATERIAL'' [socket [link 3 1]] []),
      (2, group_node ''Group'' 7 [] [socket []]),
      (3, group_node ''Group.001'' 7 [] [socket [link 3 1]])]\<rparr>"

definition mat_C :: Material where
  "mat_C = \<lparr>material_name = ''C'', use_nodes = True, material_tree = Some tree_C\<rparr>"

text \<open>A dictionary whose record already lists a material twice and names a material in
  its connected list that its materials list lacks.\<close>

definition stale_dict :: unused_dict where
  "stale_dict = [(2, group_node ''Group'' 7 [] [socket []],
     \<lparr>info_type = ''GROUP'', materials = [''A'', ''A''], connected_to_output = Some [''X''],
      parent_tree = ''A''\<rparr>)]"

text \<open>The two lists of every record, by key.\<close>

definition usage_lists :: "unused_dict \<Rightarrow> (node_id \<times> string list \<times> string list option) list" where
  "usage_lists d = map (\<lambda>(k, unused_node, info). (k, materials info, connected_to_output info)) d"

text \<open>A material whose only unused node is the group node 2, an instance of node group
  7; node group 7 has an output node 10 and an unused node 11.\<close>

definition outer_tree :: NodeTree where
  "outer_tree = \<lparr>tree_name = ''Material'', nodes =
     [(1, plain_node ''Output'' ''OUTPUT_MATERIAL'' [socket []] []),
      (2, group_node ''Group'' 7 [] [socket []])]\<rparr>"

definition payload_tree :: NodeTree where
  "payload_tree = \<lparr>tree_name = ''NodeGroup'', nodes =
     [(10, plain_node ''Output'' ''OUTPUT_MATERIAL'' [socket []] []),
      (11, plain_node ''Noise'' ''TEX_NOISE'' [] [socket []])]\<rparr>"

definition one_group :: "tree_id \<Rightarrow> NodeTree" where
  "one_group g = (if g = 7 then payload_tree else \<lparr>tree_name = [], nodes = []\<rparr>)"

text \<open>A material with two unused group nodes 2 and 3 that instantiate the same node
  group 7.\<close>

definition twin_tree :: NodeTree where
  "twin_tree = \<lparr>tree_name = ''Material'', nodes =
     [(1, plain_node ''Output'' ''OUTPUT_MATERIAL'' [socket []] []),
      (2, group_node ''Group'' 7 [] [socket []]),
      (3, group_node ''Group.001'' 7 [] [socket []])]\<rparr>"

text \<open>The parent tree stamped on every key.\<close>

definition stamps :: "unused_dict \<Rightarrow> (node_id \<times> string) list" where
  "stamps d = map (\<lambda>(k, node, info). (k, parent_tree info)) d"

text \<open>Nodes 11, 12 and 13 are regular nodes; node 14 is an attribute node generated for
  node 11 (named \<open>A\<close>), far to the left of the others; every other identity is a node
  at the origin.\<close>

definition sized_node :: "string \<Rightarrow> string \<Rightarrow> real \<times> real \<Rightarrow> real \<Rightarrow> real \<Rightarrow> Node" where
  "sized_node nm lb loc w h =
     (plain_node nm ''TEX_IMAGE'' [] [])\<lparr>label := lb, location := loc, width := w, dimensions := (w, h)\<rparr>"

definition demo_store :: node_store where
  "demo_store n =
     (if n = 11 then sized_node ''A'' [] (100, 50) 140 100
      else if n = 12 then sized_node ''B'' [] (0, 300) 200 120
      else if n = 13 then sized_node ''C'' [] (40, 300) 160 90
      else if n = 14 then sized_node ''Attr_A'' ''_tmp_attr'' (-900, 0) 140 100
      else sized_node [] [] (0, 0) 0 0)"


text \<open>What the examples look at: the locations of some nodes after a layout, and the
  locations and parents of some nodes, the node collection and the frame after a
  placement.\<close>

definition final_locations :: "py_error + node_store \<Rightarrow> node_id list \<Rightarrow> py_error + (real \<times> real) list" where
  "final_locations res ns = (case res of Inl e \<Rightarrow> Inl e | Inr objs \<Rightarrow> Inr (map (\<lambda>n. location (objs n)) ns))"

definition placed :: "py_error + (node_store \<times> node_id list \<times> node_id option) \<Rightarrow> node_id list
    \<Rightarrow> py_error + ((real \<times> real) \<times> node_id option) list \<times> node_id list \<times> node_id option" where
  "placed res ns =
     (case res of
        Inl e \<Rightarrow> Inl e
      | Inr (objs, ids, frame) \<Rightarrow> Inr (map (\<lambda>n. (location (objs n), parent (objs n))) ns, ids, frame))"

section \<open>Properties of the traversal\<close>

text \<open>One move of the traversal, as the specification words it: from a node of the
  tree along a link of one of its input sockets to the link's source node, or along a
  link of one of its output sockets to the link's destination node.\<close>

definition link_step :: "NodeTree \<Rightarrow> (node_id \<times> node_id) set" where
  "link_step tree = {(a, b). \<exists>node. map_of (nodes tree) a = Some node \<and>
      ((\<exists>inp \<in> set (inputs node). \<exists>l \<in> set (links inp). b = from_node l) \<or>
       (\<exists>out \<in> set (outputs node). \<exists>l \<in> set (links out). b = to_node l))}"



lemma set_linked_nodes:
  "set (linked_nodes node) =
     {b. (\<exists>inp \<in> set (inputs node). \<exists>l \<in> set (links inp). b = from_node l) \<or>
         (\<exists>out \<in> set (outputs node). \<exists>l \<in> set (links out). b = to_node l)}"
  unfolding linked_nodes_def by auto

lemma link_step_targets: "(a, b) \<in> link_step tree \<longleftrightarrow> b \<in> set (targets tree a)"
proof (cases "map_of (nodes tree) a")
  case None
  then show ?thesis by (simp add: link_step_def targets_def)
next
  case (Some node)
  then show ?thesis by (simp add: link_step_def targets_def set_linked_nodes)
qed

lemma visit_mono:
  "used \<subseteq> visit tree n used"
  "used \<subseteq> visit_links tree ms used"
  by (induction tree n used and tree ms used rule: visit_visit_links.induct) auto

lemma visit_contains:
  "n \<in> visit tree n used"
  "set ms \<subseteq> visit_links tree ms used"
proof (induction tree n used and tree ms used rule: visit_visit_links.induct)
  case (1 tree n used)
  show ?case using visit_mono(2) [of "insert n used" tree "targets tree n"] by auto
next
  case (2 tree used)
  show ?case by simp
next
  case (3 tree m ms used)
  have "m \<in> visit_links tree ms (visit tree m used)"
    using "3.IH"(1) visit_mono(2) [of "visit tree m used" tree ms] by blast
  with "3.IH"(2) show ?case by simp
qed

text \<open>Every node that a call adds to the set has all its link targets in the result.\<close>

lemma visit_closed:
  "\<forall>x \<in> visit tree n used - used. set (targets tree x) \<subseteq> visit tree n used"
  "\<forall>x \<in> visit_links tree ms used - used. set (targets tree x) \<subseteq> visit_links tree ms used"
proof (induction tree n used and tree ms used rule: visit_visit_links.induct)
  case (1 tree n used)
  show ?case
  proof (cases "n \<in> used")
    case True
    then show ?thesis by simp
  next
    case False
    let ?R = "visit_links tree (targets tree n) (insert n used)"
    have ih: "\<forall>x \<in> ?R - insert n used. set (targets tree x) \<subseteq> ?R"
      using "1.IH" False by simp
    have "set (targets tree n) \<subseteq> ?R" by (rule visit_contains(2))
    with ih have "\<forall>x \<in> ?R - used. set (targets tree x) \<subseteq> ?R" by blast
    with False show ?thesis by simp
  qed
next
  case (2 tree used)
  show ?case by simp
next
  case (3 tree m ms used)
  let ?R1 = "visit tree m used"
  let ?R = "visit_links tree ms ?R1"
  have sub: "?R1 \<subseteq> ?R" by (rule visit_mono(2))
  have a: "\<forall>x \<in> ?R1 - used. set (targets tree x) \<subseteq> ?R"
    using "3.IH"(1) sub by blast
  have b: "\<forall>x \<in> ?R - ?R1. set (targets tree x) \<subseteq> ?R"
    using "3.IH"(2) .
  from a b have "\<forall>x \<in> ?R - used. set (targets tree x) \<subseteq> ?R" by blast
  then show ?case by simp
qed

lemma visit_sound:
  "visit tree n used \<subseteq> used \<union> (link_step tree)\<^sup>* `` {n}"
  "visit_links tree ms used \<subseteq> used \<union> (link_step tree)\<^sup>* `` set ms"
proof (induction tree n used and tree ms used rule: visit_visit_links.induct)
  case (1 tree n used)
  show ?case
  proof (cases "n \<in> used")
    case True
    then show ?thesis by simp
  next
    case False
    have "(link_step tree)\<^sup>* `` set (targets tree n) \<subseteq> (link_step tree)\<^sup>* `` {n}"
      by (auto simp: link_step_targets intro: converse_rtrancl_into_rtrancl)
    with "1.IH" False show ?thesis by auto
  qed
next
  case (2 tree used)
  show ?case by simp
next
  case (3 tree m ms used)
  have "visit_links tree (m # ms) used
          \<subseteq> visit tree m used \<union> (link_step tree)\<^sup>* `` set ms"
    using "3.IH"(2) by simp
  also have "\<dots> \<subseteq> (used \<union> (link_step tree)\<^sup>* `` {m}) \<union> (link_step tree)\<^sup>* `` set ms"
    using "3.IH"(1) by blast
  also have "\<dots> = used \<union> (link_step tree)\<^sup>* `` set (m # ms)"
    by auto
  finally show ?case .
qed

lemma outputs_in_traverse: "set (get_output_nodes tree) \<subseteq> traverse_from_outputs tree"
  unfolding traverse_from_outputs_def by (rule visit_contains(2))

lemma traverse_closed:
  assumes "a \<in> traverse_from_outputs tree" and "(a, b) \<in> (link_step tree)\<^sup>*"
  shows "b \<in> traverse_from_outputs tree"
  using assms(2,1)
proof (induction rule: rtrancl_induct)
  case base
  then show ?case .
next
  case (step y z)
  then have "y \<in> traverse_from_outputs tree" by simp
  with visit_closed(2) [of tree "get_output_nodes tree" "{}"]
  have "set (targets tree y) \<subseteq> traverse_from_outputs tree"
    by (simp add: traverse_from_outputs_def)
  with step(2) show ?case by (auto simp: link_step_targets)
qed

lemma traverse_reachable:
  "traverse_from_outputs tree = (link_step tree)\<^sup>* `` set (get_output_nodes tree)"
proof
  show "traverse_from_outputs tree \<subseteq> (link_step tree)\<^sup>* `` set (get_output_nodes tree)"
    using visit_sound(2) [of tree "get_output_nodes tree" "{}"]
    by (simp add: traverse_from_outputs_def)
next
  show "(link_step tree)\<^sup>* `` set (get_output_nodes tree) \<subseteq> traverse_from_outputs tree"
    using outputs_in_traverse traverse_closed by blast
qed






lemmas example_defs = plain_node_def socket_def link_def
  get_output_nodes_def output_types_def targets_def linked_nodes_def all_nodes_def

lemma dict_keys_Nil [simp]: "dict_keys [] = []"
  by (simp add: dict_keys_def)

lemma iteration_order_id: "iteration_order id"
  by (simp add: iteration_order_def)

lemma iteration_order_set: "iteration_order io \<Longrightarrow> set (io xs) = set xs"
  unfolding iteration_order_def by (metis set_mset_mset)

lemma iteration_order_Nil: "iteration_order io \<Longrightarrow> io [] = []"
  unfolding iteration_order_def by (metis mset_zero_iff)

lemma small_tree_outputs: "get_output_nodes small_tree = [1]"
  by (simp add: small_tree_def example_defs)

lemma small_tree_all: "all_nodes small_tree = {1, 2, 3}"
  by (simp add: small_tree_def example_defs)

lemma small_tree_used: "traverse_from_outputs small_tree = {1, 2}"
  by (auto simp add: traverse_from_outputs_def small_tree_def example_defs)

lemma small_tree_unused: "unused_nodes small_tree = {3}"
  by (auto simp add: unused_nodes_def small_tree_used small_tree_all)




lemma small_tree_links: "links_inside small_tree"
  by (simp add: links_inside_def small_tree_def example_defs)

lemma no_output_tree_outputs: "get_output_nodes no_output_tree = []"
  by (simp add: no_output_tree_def example_defs)

lemma no_output_tree_all: "all_nodes no_output_tree = {1, 2, 3}"
  by (simp add: no_output_tree_def example_defs)

lemma used_tree_unused: "unused_nodes used_tree = {}"
  by (auto simp add: unused_nodes_def traverse_from_outputs_def used_tree_def example_defs)

lemma link_step_inside:
  assumes "links_inside tree" and "(a, b) \<in> link_step tree"
  shows "b \<in> all_nodes tree"
proof -
  from assms(2) obtain node where node: "map_of (nodes tree) a = Some node"
    and b: "(\<exists>inp \<in> set (inputs node). \<exists>l \<in> set (links inp). b = from_node l) \<or>
       (\<exists>out \<in> set (outputs node). \<exists>l \<in> set (links out). b = to_node l)"
    unfolding link_step_def by blast
  from node have "(a, node) \<in> set (nodes tree)" by (rule map_of_SomeD)
  with assms(1) have "\<forall>s \<in> set (inputs node @ outputs node).
        \<forall>l \<in> set (links s). from_node l \<in> all_nodes tree \<and> to_node l \<in> all_nodes tree"
    unfolding links_inside_def by blast
  with b show ?thesis by auto
qed

lemma outputs_in_all: "set (get_output_nodes tree) \<subseteq> all_nodes tree"
  by (auto simp: get_output_nodes_def all_nodes_def)

lemma traverse_inside:
  assumes "links_inside tree"
  shows "traverse_from_outputs tree \<subseteq> all_nodes tree"
proof
  fix b assume "b \<in> traverse_from_outputs tree"
  then obtain a where a: "a \<in> set (get_output_nodes tree)" and r: "(a, b) \<in> (link_step tree)\<^sup>*"
    unfolding traverse_reachable by blast
  from r show "b \<in> all_nodes tree"
  proof (induction rule: rtrancl_induct)
    case base
    show ?case using a outputs_in_all by blast
  next
    case (step y z)
    then show ?case using link_step_inside [OF assms] by blast
  qed
qed

lemma keys_fold_update:
  "fst ` set (fold (\<lambda>(i, node) d. AList.update i (f i node) d) xs d0) = fst ` set xs \<union> fst ` set d0"
proof (induction xs arbitrary: d0)
  case Nil
  show ?case by simp
next
  case (Cons x xs)
  obtain i node where x: "x = (i, node)" by (cases x)
  have "fst ` set (AList.update i (f i node) d0) = {i} \<union> fst ` set d0"
    by (rule dom_update)
  with Cons [of "AList.update i (f i node) d0"] x show ?case by auto
qed

lemma keys_find_unused_nodes:
  assumes "iteration_order io" and "get_output_nodes tree \<noteq> []"
  shows "fst ` set (find_unused_nodes io (Some tree) p sa) =
     {i. \<exists>node. (i, node) \<in> set (nodes tree) \<and> i \<in> unused_nodes tree \<and> (sa \<or> \<not> is_attribute node)}"
  using assms
  by (auto simp: find_unused_nodes_def Let_def iteration_order_set image_iff
      keys_fold_update [where f = "\<lambda>i node. (node, new_info node t)" for t])

lemma keys_find_unused_nodes_all:
  assumes "iteration_order io" and "get_output_nodes tree \<noteq> []"
  shows "fst ` set (find_unused_nodes io (Some tree) p True) = unused_nodes tree"
  unfolding keys_find_unused_nodes [OF assms]
  by (auto simp: unused_nodes_def all_nodes_def)

text \<open>
  Claim C2. For every tree whose links stay inside it, the used set returned by the
  traversal and the unused set derived from it in \<open>find_unused_nodes\<close> (before the
  attribute filter) are disjoint and their union is the set of all nodes of the tree;
  with attributes shown, the keys of the returned dictionary are that unused set.
\<close>

theorem used_unused_partition:
  assumes "links_inside tree"
  shows "traverse_from_outputs tree \<union> unused_nodes tree = all_nodes tree
     \<and> traverse_from_outputs tree \<inter> unused_nodes tree = {}
     \<and> (iteration_order io \<and> get_output_nodes tree \<noteq> [] \<longrightarrow>
          fst ` set (find_unused_nodes io (Some tree) p True) = unused_nodes tree)"
  using traverse_inside [OF assms] keys_find_unused_nodes_all [of io tree p]
  by (auto simp: unused_nodes_def)

theorem used_unused_partition_witness:
  "links_inside small_tree
   \<and> traverse_from_outputs small_tree = {1, 2} \<and> unused_nodes small_tree = {3}
   \<and> all_nodes small_tree = {1, 2, 3}
   \<and> iteration_order id \<and> get_output_nodes small_tree \<noteq> []
   \<and> fst ` set (find_unused_nodes id (Some small_tree) [] True) = {3}"
  using used_unused_partition [OF small_tree_links, of id "[]"]
  by (auto simp add: small_tree_used small_tree_unused small_tree_all small_tree_outputs
      small_tree_links iteration_order_id)

lemma traverse_no_outputs: "get_output_nodes tree = [] \<Longrightarrow> traverse_from_outputs tree = {}"
  by (simp add: traverse_from_outputs_def)

text \<open>
  Claim C4, as stated, says that for a tree without output nodes every node is treated
  as unused. For the chain of three linked nodes without an output node
  \<open>find_unused_nodes\<close> returns the empty dictionary: its second guard returns before
  the unused set is computed.
\<close>

theorem no_outputs_counterexample:
  "get_output_nodes no_output_tree = [] \<and> all_nodes no_output_tree = {1, 2, 3}
   \<and> find_unused_nodes id (Some no_output_tree) [] True = []"
  by (simp add: no_output_tree_outputs no_output_tree_all find_unused_nodes_def)

text \<open>
  Claim C4, amended. For every tree without output nodes the traversal returns the empty
  set, so that the difference of all nodes and the used set is the set of all nodes; but
  \<open>find_unused_nodes\<close> and \<open>find_unused_nodes_recursive\<close> return the empty
  dictionary: no node is reported as unused.
\<close>

theorem no_outputs_nothing_reported:
  assumes "get_output_nodes tree = []"
  shows "traverse_from_outputs tree = {}
     \<and> all_nodes tree - traverse_from_outputs tree = all_nodes tree
     \<and> find_unused_nodes io (Some tree) p sa = []
     \<and> find_unused_nodes_recursive (Suc depth) io groups (Some tree) p sa = Some []"
  using assms by (simp add: traverse_no_outputs find_unused_nodes_def)

theorem no_outputs_nothing_reported_witness:
  "get_output_nodes no_output_tree = []
     \<and> traverse_from_outputs no_output_tree = {}
     \<and> find_unused_nodes id (Some no_output_tree) [] True = []
     \<and> find_unused_nodes_recursive 1 id no_groups (Some no_output_tree) [] True = Some []"
  using no_outputs_nothing_reported [OF no_output_tree_outputs, of id "[]" True 0 no_groups]
  by (simp add: no_output_tree_outputs)

text \<open>
  Claim C9, as stated, says that a null graph makes the analysis functions fail with an
  error instead of returning an empty result. Both functions return the empty dictionary
  for \<open>None\<close>.
\<close>

theorem null_graph_counterexample:
  "find_unused_nodes id None [] True = []
   \<and> find_unused_nodes_recursive 1 id no_groups None [] True = Some []"
  by (simp add: find_unused_nodes_def)

lemma find_unused_nodes_nothing:
  assumes "iteration_order io" and "unused_nodes tree = {}"
  shows "find_unused_nodes io (Some tree) p sa = []"
  using assms by (simp add: find_unused_nodes_def Let_def iteration_order_Nil)

text \<open>
  Claim C9, amended. Given a null graph, \<open>find_unused_nodes\<close> and
  \<open>find_unused_nodes_recursive\<close> return the empty dictionary and raise nothing; for a
  tree in which nothing is unused they return the empty dictionary as well.
\<close>

theorem empty_results_not_errors:
  assumes "iteration_order io"
  shows "find_unused_nodes io None p sa = []
     \<and> find_unused_nodes_recursive (Suc depth) io groups None p sa = Some []
     \<and> (unused_nodes tree = {} \<longrightarrow>
          find_unused_nodes io (Some tree) p sa = []
          \<and> find_unused_nodes_recursive (Suc depth) io groups (Some tree) p sa = Some [])"
  using find_unused_nodes_nothing [OF assms, of tree p sa]
  by (simp add: find_unused_nodes_def)


theorem empty_results_not_errors_witness:
  "iteration_order id \<and> unused_nodes used_tree = {}
   \<and> find_unused_nodes id None [] True = []
   \<and> find_unused_nodes_recursive 1 id no_groups None [] True = Some []
   \<and> find_unused_nodes id (Some used_tree) [] True = []
   \<and> find_unused_nodes_recursive 1 id no_groups (Some used_tree) [] True = Some []"
  using empty_results_not_errors [OF iteration_order_id, of "[]" True 0 no_groups used_tree]
  by (simp add: used_tree_unused iteration_order_id)

section \<open>Properties of the usage aggregator\<close>

lemma record_usage_fixed:
  "info_type (record_usage mname node tree un info) = info_type info"
  "parent_tree (record_usage mname node tree un info) = parent_tree info"
  by (simp_all add: record_usage_def Let_def split: option.splits)

lemma record_usage_ok:
  assumes "lists_ok info"
  shows "lists_ok (record_usage mname node tree un info)"
proof (cases "type un = ''GROUP'' \<and> node_tree un = node_tree node \<and> mname \<notin> set (materials info)")
  case False
  then have "record_usage mname node tree un info = info"
    unfolding record_usage_def by (simp only: if_False)
  with assms show ?thesis by simp
next
  case True
  show ?thesis
  proof (cases "connected_to_output info")
    case None
    with True assms show ?thesis
      by (simp add: record_usage_def connected_list_def lists_ok_def Let_def)
  next
    case (Some c)
    with True assms show ?thesis
      by (auto simp: record_usage_def connected_list_def lists_ok_def Let_def)
  qed
qed

lemma usage_of_node_fixed: "fixed_part (usage_of_node mname tree node d) = fixed_part d"
  by (simp add: usage_of_node_def fixed_part_def record_usage_fixed case_prod_unfold)

lemma usage_of_node_ok:
  assumes "\<forall>(k, un, info) \<in> set d. lists_ok info"
  shows "\<forall>(k, un, info) \<in> set (usage_of_node mname tree node d). lists_ok info"
  using assms by (auto simp: usage_of_node_def record_usage_ok)

lemma fold_usage_of_node_fixed:
  "fixed_part (fold (\<lambda>(i, node) acc. usage_of_node mname tree node acc) ns d) = fixed_part d"
  by (induction ns arbitrary: d) (auto simp: usage_of_node_fixed)

lemma fold_usage_of_node_ok:
  assumes "\<forall>(k, un, info) \<in> set d. lists_ok info"
  shows "\<forall>(k, un, info) \<in> set (fold (\<lambda>(i, node) acc. usage_of_node mname tree node acc) ns d).
           lists_ok info"
  using assms
proof (induction ns arbitrary: d)
  case Nil
  then show ?case by simp
next
  case (Cons x ns)
  obtain i node where x: "x = (i, node)" by (cases x)
  from Cons.prems have "\<forall>(k, un, info) \<in> set (usage_of_node mname tree node d). lists_ok info"
    by (rule usage_of_node_ok)
  from Cons.IH [OF this] x show ?case by simp
qed

lemma usage_of_material_fixed: "fixed_part (usage_of_material material d) = fixed_part d"
  by (simp add: usage_of_material_def fold_usage_of_node_fixed split: option.splits)

lemma usage_of_material_ok:
  assumes "\<forall>(k, un, info) \<in> set d. lists_ok info"
  shows "\<forall>(k, un, info) \<in> set (usage_of_material material d). lists_ok info"
proof (cases "material_tree material")
  case None
  with assms show ?thesis by (simp add: usage_of_material_def)
next
  case (Some tree)
  show ?thesis
  proof (cases "use_nodes material")
    case False
    with Some assms show ?thesis by (simp add: usage_of_material_def)
  next
    case True
    with Some fold_usage_of_node_ok [OF assms, of "material_name material" tree "nodes tree"]
    show ?thesis by (simp add: usage_of_material_def)
  qed
qed

lemma collect_group_usage_fixed: "fixed_part (collect_group_usage d mats) = fixed_part d"
  unfolding collect_group_usage_def
  by (induction mats arbitrary: d) (simp_all add: usage_of_material_fixed)

lemma collect_group_usage_ok:
  assumes "\<forall>(k, un, info) \<in> set d. lists_ok info"
  shows "\<forall>(k, un, info) \<in> set (collect_group_usage d mats). lists_ok info"
  using assms unfolding collect_group_usage_def
proof (induction mats arbitrary: d)
  case Nil
  then show ?case by simp
next
  case (Cons m mats)
  from Cons.prems have "\<forall>(k, un, info) \<in> set (usage_of_material m d). lists_ok info"
    by (rule usage_of_material_ok)
  from Cons.IH [OF this] show ?case by simp
qed

text \<open>
  Claim C10, amended. \<open>collect_group_usage\<close> keeps the keys of the dictionary and, in
  every record, the node type and the parent tree; and if on entry every record has its
  connected list within its materials list and both lists free of duplicates (as the
  records that \<open>find_unused_nodes\<close> builds have), then so has every record on return.
\<close>

theorem collect_group_usage_keeps_records:
  assumes ok: "records_ok d"
  shows "map fst (collect_group_usage d mats) = map fst d
     \<and> fixed_part (collect_group_usage d mats) = fixed_part d
     \<and> records_ok (collect_group_usage d mats)"
proof -
  from ok have assms: "\<forall>(k, unused_node, info) \<in> set d. lists_ok info"
    by (simp add: records_ok_def)
  have "map fst (fixed_part (collect_group_usage d mats)) = map fst (fixed_part d)"
    by (simp add: collect_group_usage_fixed)
  then have "map fst (collect_group_usage d mats) = map fst d"
    by (simp add: fixed_part_def case_prod_unfold comp_def)
  with collect_group_usage_fixed [of d mats] collect_group_usage_ok [OF assms, of mats]
  show ?thesis by (simp add: records_ok_def)
qed

lemmas usage_defs = collect_group_usage_def usage_of_material_def usage_of_node_def
  record_usage_def is_group_connected_to_output_def connected_list_def group_node_def
  plain_node_def socket_def link_def

lemma tree_A_found:
  "find_unused_nodes id (Some tree_A) ''A'' True =
     [(2, group_node ''Group'' 7 [] [socket []],
       \<lparr>info_type = ''GROUP'', materials = [], connected_to_output = Some [],
        parent_tree = ''A''\<rparr>)]"
proof -
  have out: "get_output_nodes tree_A = [1]"
    by (simp add: tree_A_def group_node_def example_defs)
  have "traverse_from_outputs tree_A = {1}"
    by (auto simp add: traverse_from_outputs_def out) (auto simp: tree_A_def group_node_def example_defs)
  then have "unused_nodes tree_A = {2}"
    by (auto simp: unused_nodes_def all_nodes_def tree_A_def)
  then show ?thesis
    by (simp add: find_unused_nodes_def out) (simp add: tree_A_def new_info_def group_node_def plain_node_def)
qed

lemma tree_C_found:
  "find_unused_nodes id (Some tree_C) ''C'' True =
     [(2, group_node ''Group'' 7 [] [socket []],
       \<lparr>info_type = ''GROUP'', materials = [], connected_to_output = Some [],
        parent_tree = ''C''\<rparr>)]"
proof -
  have out: "get_output_nodes tree_C = [1]"
    by (simp add: tree_C_def group_node_def example_defs)
  have "traverse_from_outputs tree_C = {1, 3}"
    by (auto simp add: traverse_from_outputs_def out) (auto simp: tree_C_def group_node_def example_defs)
  then have "unused_nodes tree_C = {2}"
    by (auto simp: unused_nodes_def all_nodes_def tree_C_def)
  then show ?thesis
    by (simp add: find_unused_nodes_def out) (simp add: tree_C_def new_info_def group_node_def plain_node_def)
qed

text \<open>The scenario of the specification: the group is instantiated by \<open>A\<close> and \<open>B\<close>
  and linked only in \<open>B\<close>.\<close>

lemma aggregation_scenario:
  "usage_lists (collect_group_usage (find_unused_nodes id (Some tree_A) ''A'' True) [mat_A, mat_B])
     = [(2, [''A'', ''B''], Some [''B''])]"
  unfolding tree_A_found
  by (simp add: usage_lists_def usage_defs mat_A_def mat_B_def tree_A_def tree_B_def)

text \<open>
  Claim C5 says that the material's name enters the connected list whenever an instance
  of the record's node group in that material has a linked output socket. In material
  \<open>C\<close> the unused group node 2 and the used group node 3 instantiate the same node
  group, and the output of node 3 is linked; yet the record of node 2 ends with \<open>C\<close> in
  its materials list and an empty connected list: the test of the output sockets is made
  only for the first instance that adds the material's name.
\<close>

theorem second_instance_not_recorded:
  "usage_lists (collect_group_usage (find_unused_nodes id (Some tree_C) ''C'' True) [mat_C])
     = [(2, [''C''], Some [])]
   \<and> map_of (nodes tree_C) 3 = Some (group_node ''Group.001'' 7 [] [socket [link 3 1]])
   \<and> is_group_connected_to_output (map_of (nodes tree_C) 3) (Some tree_C)"
  unfolding tree_C_found
  by (simp add: usage_lists_def usage_defs mat_C_def tree_C_def)

text \<open>
  Claim C10, as stated, holds for every input map. A record that enters with a material
  listed twice and with a connected list outside its materials list leaves the same way.
\<close>

theorem stale_lists_counterexample:
  "usage_lists stale_dict = [(2, [''A'', ''A''], Some [''X''])]
   \<and> usage_lists (collect_group_usage stale_dict [mat_A, mat_B])
       = [(2, [''A'', ''A'', ''B''], Some [''X'', ''B''])]"
  by (simp add: stale_dict_def usage_lists_def usage_defs mat_A_def mat_B_def tree_A_def tree_B_def)

theorem collect_group_usage_keeps_records_witness:
  "records_ok (find_unused_nodes id (Some tree_A) ''A'' True)
   \<and> map fst (collect_group_usage (find_unused_nodes id (Some tree_A) ''A'' True) [mat_A, mat_B]) = [2]
   \<and> fixed_part (collect_group_usage (find_unused_nodes id (Some tree_A) ''A'' True) [mat_A, mat_B])
       = [(2, group_node ''Group'' 7 [] [socket []], ''GROUP'', ''A'')]
   \<and> records_ok (collect_group_usage (find_unused_nodes id (Some tree_A) ''A'' True) [mat_A, mat_B])"
proof -
  have ok: "records_ok (find_unused_nodes id (Some tree_A) ''A'' True)"
    unfolding tree_A_found by (simp add: records_ok_def lists_ok_def connected_list_def)
  from collect_group_usage_keeps_records [OF ok, of "[mat_A, mat_B]"] ok
  show ?thesis
    by (simp add: tree_A_found fixed_part_def)
qed

section \<open>The delete operator on nested groups\<close>

lemma outer_tree_found:
  "find_unused_nodes id (Some outer_tree) [] True =
     [(2, group_node ''Group'' 7 [] [socket []],
       \<lparr>info_type = ''GROUP'', materials = [], connected_to_output = Some [],
        parent_tree = ''Material''\<rparr>)]"
proof -
  have out: "get_output_nodes outer_tree = [1]"
    by (simp add: outer_tree_def group_node_def example_defs)
  have "traverse_from_outputs outer_tree = {1}"
    by (auto simp add: traverse_from_outputs_def out) (auto simp: outer_tree_def group_node_def example_defs)
  then have "unused_nodes outer_tree = {2}"
    by (auto simp: unused_nodes_def all_nodes_def outer_tree_def)
  then show ?thesis
    by (simp add: find_unused_nodes_def out) (simp add: outer_tree_def new_info_def group_node_def plain_node_def)
qed

lemma payload_tree_found:
  "p \<noteq> [] \<Longrightarrow> find_unused_nodes id (Some payload_tree) p True =
     [(11, plain_node ''Noise'' ''TEX_NOISE'' [] [socket []],
       \<lparr>info_type = ''TEX_NOISE'', materials = [], connected_to_output = Some [],
        parent_tree = p\<rparr>)]"
proof -
  assume p: "p \<noteq> []"
  have out: "get_output_nodes payload_tree = [10]"
    by (simp add: payload_tree_def example_defs)
  have "traverse_from_outputs payload_tree = {10}"
    by (auto simp add: traverse_from_outputs_def out) (auto simp: payload_tree_def example_defs)
  then have "unused_nodes payload_tree = {11}"
    by (auto simp: unused_nodes_def all_nodes_def payload_tree_def)
  then show ?thesis using p
    by (simp add: find_unused_nodes_def out) (simp add: payload_tree_def new_info_def plain_node_def)
qed

lemma outer_tree_recursive:
  "find_unused_nodes_recursive (Suc (Suc depth)) id one_group (Some outer_tree) [] True =
     Some [(2, group_node ''Group'' 7 [] [socket []],
            \<lparr>info_type = ''GROUP'', materials = [], connected_to_output = Some [],
             parent_tree = ''Material''\<rparr>),
           (11, plain_node ''Noise'' ''TEX_NOISE'' [] [socket []],
            \<lparr>info_type = ''TEX_NOISE'', materials = [], connected_to_output = Some [],
             parent_tree = ''Group''\<rparr>)]"
proof -
  have nested: "find_unused_nodes_recursive (Suc depth) id one_group (Some payload_tree) ''Group'' True =
     Some [(11, plain_node ''Noise'' ''TEX_NOISE'' [] [socket []],
            \<lparr>info_type = ''TEX_NOISE'', materials = [], connected_to_output = Some [],
             parent_tree = ''Group''\<rparr>)]"
    by (simp add: payload_tree_found dict_keys_def) (simp add: plain_node_def)
  have g: "one_group 7 = payload_tree" by (simp add: one_group_def)
  have nm: "nested_tree_name [] (group_node ''Group'' 7 [] [socket []]) = ''Group''"
    by (simp add: nested_tree_name_def group_node_def plain_node_def)
  have ty: "type (group_node ''Group'' 7 [] [socket []]) = ''GROUP''"
    "node_tree (group_node ''Group'' 7 [] [socket []]) = Some 7"
    by (simp_all add: group_node_def plain_node_def)
  have "find_unused_nodes_recursive (Suc (Suc depth)) id one_group (Some outer_tree) [] True =
      recurse_groups (Suc depth) id one_group [] True
        [(2, group_node ''Group'' 7 [] [socket []])]
        [(2, group_node ''Group'' 7 [] [socket []],
          \<lparr>info_type = ''GROUP'', materials = [], connected_to_output = Some [],
           parent_tree = ''Material''\<rparr>)]"
    by (simp only: find_unused_nodes_recursive.simps(3) Let_def outer_tree_found dict_keys_def
        list.map prod.case)
  also have "\<dots> = Some (dict_update
        [(2, group_node ''Group'' 7 [] [socket []],
          \<lparr>info_type = ''GROUP'', materials = [], connected_to_output = Some [],
           parent_tree = ''Material''\<rparr>)]
        [(11, plain_node ''Noise'' ''TEX_NOISE'' [] [socket []],
            \<lparr>info_type = ''TEX_NOISE'', materials = [], connected_to_output = Some [],
             parent_tree = ''Group''\<rparr>)])"
    by (simp add: ty nm g nested del: find_unused_nodes_recursive.simps)
  finally show ?thesis by (simp add: dict_update_def)
qed

text \<open>
  Claim C6 says that the delete operator removes every node of the map that
  \<open>find_unused_nodes_recursive\<close> returns from the graph that owns it, \<open>N\<close> nodes for
  \<open>N\<close> found. For the material above the analysis finds the group node 2 and node 11
  of the node group. The operator removes node 2 and then asks the material's tree to
  remove node 11, which is not one of its nodes: the host raises, the operator is
  cancelled with an error report, and node 11 is still in node group 7.
\<close>

theorem nested_node_not_deleted:
  "map_option (map fst) (find_unused_nodes_recursive 1000 id one_group (Some outer_tree) [] True)
     = Some [2, 11]
   \<and> DeleteUnusedNodes_execute 1000 id one_group (Some outer_tree)
     = (CANCELLED, ERROR RuntimeError,
        Some \<lparr>tree_name = ''Material'', nodes =
          [(1, plain_node ''Output'' ''OUTPUT_MATERIAL'' [socket []] [])]\<rparr>)
   \<and> 11 \<in> all_nodes (one_group 7)"
proof -
  have found: "find_unused_nodes_recursive 1000 id one_group (Some outer_tree) [] True =
     Some [(2, group_node ''Group'' 7 [] [socket []],
            \<lparr>info_type = ''GROUP'', materials = [], connected_to_output = Some [],
             parent_tree = ''Material''\<rparr>),
           (11, plain_node ''Noise'' ''TEX_NOISE'' [] [socket []],
            \<lparr>info_type = ''TEX_NOISE'', materials = [], connected_to_output = Some [],
             parent_tree = ''Group''\<rparr>)]"
    using outer_tree_recursive [of 998] by (simp del: find_unused_nodes_recursive.simps)
  have all: "all_nodes outer_tree = {1, 2}"
    by (simp add: all_nodes_def outer_tree_def)
  have r1: "nodes_remove outer_tree 2 =
      Inr \<lparr>tree_name = ''Material'', nodes =
          [(1, plain_node ''Output'' ''OUTPUT_MATERIAL'' [socket []] [])]\<rparr>"
    by (simp add: nodes_remove_def all) (simp add: outer_tree_def plain_node_def socket_def unlink_def)
  have r2: "nodes_remove \<lparr>tree_name = ''Material'', nodes =
          [(Suc 0, plain_node ''Output'' ''OUTPUT_MATERIAL'' [socket []] [])]\<rparr> 11 = Inl RuntimeError"
    by (simp add: nodes_remove_def all_nodes_def)
  show ?thesis
    by (simp add: DeleteUnusedNodes_execute_def found r1 r2)
      (simp add: one_group_def payload_tree_def all_nodes_def)
qed

section \<open>Properties of the recursive group expander\<close>









lemma dict_update_Nil [simp]: "dict_update d [] = d"
  by (simp add: dict_update_def)





















text \<open>With the set iterated in the other order it is the stamp for \<open>Group.001\<close>
  that is lost.\<close>

lemma shared_payload_other_order:
  "map_option stamps
     (find_unused_nodes_recursive 1000 rev one_group (Some twin_tree) ''Material'' True)
     = Some [(3, ''Material''), (2, ''Material''), (11, ''Material.Group'')]"
  by code_simp



section \<open>Properties of the layout engine\<close>

lemma div_step:
  assumes "0 < (C::nat)"
  shows "Suc k div C = k div C \<and> Suc k mod C = Suc (k mod C)
       \<or> Suc k div C = Suc (k div C) \<and> Suc k mod C = 0"
  using assms by (auto simp: div_Suc mod_Suc)

lemma Max_snoc:
  "Max (set (0 # xs @ [w])) = max (Max (set (0 # xs))) (w::real)"
proof -
  have "set (0 # xs @ [w]) = insert w (set (0 # xs))" by auto
  then show ?thesis by (simp add: max.commute)
qed

lemma indexed_snoc:
  "map (\<lambda>j. f ((ns @ [x]) ! j)) (filter P [0..<length (ns @ [x])])
     = map (\<lambda>j. f (ns ! j)) (filter P [0..<length ns]) @ (if P (length ns) then [f x] else [])"
proof -
  have "map (\<lambda>j. f ((ns @ [x]) ! j)) (filter P [0..<length ns])
      = map (\<lambda>j. f (ns ! j)) (filter P [0..<length ns])"
    by (rule map_cong) (auto simp: nth_append)
  then show ?thesis by simp
qed

lemma col_width_snoc:
  "col_width objs cols (ns @ [x]) c =
     (if length ns mod cols = c then max (col_width objs cols ns c) (width (objs x))
      else col_width objs cols ns c)"
  unfolding col_width_def indexed_snoc [where f = "\<lambda>n. width (objs n)"]
  by (simp only: Max_snoc append_Nil2 split: if_split) simp

lemma row_height_snoc:
  "row_height objs cols (ns @ [x]) r =
     (if length ns div cols = r then max (row_height objs cols ns r) (snd (dimensions (objs x)))
      else row_height objs cols ns r)"
  unfolding row_height_def indexed_snoc [where f = "\<lambda>n. snd (dimensions (objs n))"]
  by (simp only: Max_snoc append_Nil2 split: if_split) simp

lemma row_height_beyond:
  assumes "0 < cols" and "\<forall>j < length ns. j div cols < r"
  shows "row_height objs cols ns r = 0"
proof -
  from assms(2) have "filter (\<lambda>j. j div cols = r) [0..<length ns] = []"
    by (auto simp: filter_empty_conv)
  then show ?thesis by (simp add: row_height_def)
qed


definition grid_inv :: "node_store \<Rightarrow> nat \<Rightarrow> node_id list \<Rightarrow> grid_state \<Rightarrow> bool" where
  "grid_inv objs C P st \<longleftrightarrow> (case st of (col_w, row_h, grid) \<Rightarrow>
      col_w = map (col_width objs C P) [0..<C]
    \<and> row_h = map (row_height objs C P) [0..<length grid]
    \<and> length grid = (if P = [] then 0 else (length P - 1) div C + 1)
    \<and> (P \<noteq> [] \<longrightarrow> length (last grid) = (length P - 1) mod C + 1)
    \<and> concat grid = P
    \<and> (\<forall>j < length P. j div C < length grid \<and> j mod C < length (grid ! (j div C))
                        \<and> grid ! (j div C) ! (j mod C) = P ! j))"

lemma py_index_nat: "k < length xs \<Longrightarrow> py_index xs (int k) = Some k"
  by (simp add: py_index_def)

lemma grid_position:
  assumes C: "0 < C"
    and len: "length grid = (if P = [] then 0 else (length P - 1) div C + 1)"
    and last: "P \<noteq> [] \<longrightarrow> length (last grid) = (length P - 1) mod C + 1"
  shows "(length grid = length P div C \<and> length P mod C = 0)
       \<or> (Suc (length P div C) = length grid \<and> grid \<noteq> []
            \<and> length (last grid) = length P mod C)"
proof (cases P)
  case Nil
  with len show ?thesis by simp
next
  case (Cons a P')
  then have k: "length P = Suc (length P')" and ne: "P \<noteq> []" by simp_all
  from len last ne k have l: "length grid = length P' div C + 1"
    and m: "length (last grid) = length P' mod C + 1" by simp_all
  from div_step [OF C, of "length P'"] show ?thesis
  proof
    assume "Suc (length P') div C = length P' div C \<and> Suc (length P') mod C = Suc (length P' mod C)"
    with l m k show ?thesis by auto
  next
    assume "Suc (length P') div C = Suc (length P' div C) \<and> Suc (length P') mod C = 0"
    with l m k show ?thesis by auto
  qed
qed

lemma col_update_eq:
  assumes "0 < C"
  shows "(map (col_width objs C P) [0..<C])
           [length P mod C := max (map (col_width objs C P) [0..<C] ! (length P mod C)) (width (objs x))]
     = map (col_width objs C (P @ [x])) [0..<C]"
  using assms by (auto simp: list_eq_iff_nth_eq col_width_snoc nth_list_update)


lemma grid_step_new_row:
  assumes C: "0 < C" and inv: "grid_inv objs C P (col_w, row_h, grid)"
    and pos: "length grid = length P div C" "length P mod C = 0"
  shows "grid_step objs (int C) (length P, x) (col_w, row_h, grid) =
           Inr (map (col_width objs C (P @ [x])) [0..<C],
                row_h @ [max 0 (snd (dimensions (objs x)))],
                grid @ [[x]])"
proof -
  from inv have cw: "col_w = map (col_width objs C P) [0..<C]"
    and "row_h = map (row_height objs C P) [0..<length grid]"
    unfolding grid_inv_def prod.case by blast+
  then have rh: "length row_h = length grid" by simp
  have c: "int (length P) mod int C = 0" and r: "int (length P) div int C = int (length grid)"
    using pos by (simp_all flip: of_nat_mod of_nat_div)
  have i0: "py_index col_w 0 = Some 0"
    using C cw by (simp add: py_index_def)
  have ig: "py_index (grid @ [[]]) (int (length grid)) = Some (length grid)"
    using py_index_nat [of "length grid" "grid @ [[]]"] by simp
  have ih: "py_index (row_h @ [0::real]) (int (length grid)) = Some (length grid)"
    using py_index_nat [of "length grid" "row_h @ [0]"] rh by simp
  have col: "col_w[0 := max (col_w ! 0) (width (objs x))] = map (col_width objs C (P @ [x])) [0..<C]"
    using col_update_eq [OF C, of objs P x] pos(2) cw by simp
  have row: "(row_h @ [0])[length grid := max ((row_h @ [0]) ! length grid) (snd (dimensions (objs x)))]
      = row_h @ [max 0 (snd (dimensions (objs x)))]"
    using rh [symmetric] by (simp add: nth_append)
  have grd: "(grid @ [[]])[length grid := (grid @ [[]]) ! length grid @ [x]] = grid @ [[x]]"
    by simp
  show ?thesis
    using C by (simp add: grid_step_def c r i0 ig ih col row grd del: list_update_append1)
qed

lemma grid_step_same_row:
  assumes C: "0 < C" and inv: "grid_inv objs C P (col_w, row_h, grid)"
    and pos: "Suc (length P div C) = length grid"
  shows "grid_step objs (int C) (length P, x) (col_w, row_h, grid) =
           Inr (map (col_width objs C (P @ [x])) [0..<C],
                row_h[length P div C := max (row_h ! (length P div C)) (snd (dimensions (objs x)))],
                grid[length P div C := grid ! (length P div C) @ [x]])"
proof -
  from inv have cw: "col_w = map (col_width objs C P) [0..<C]"
    and "row_h = map (row_height objs C P) [0..<length grid]"
    unfolding grid_inv_def prod.case by blast+
  then have rh: "length row_h = length grid" by simp
  have c: "int (length P) mod int C = int (length P mod C)"
    and r: "int (length P) div int C = int (length P div C)"
    by (simp_all flip: of_nat_mod of_nat_div)
  have lt: "length P div C < length grid" using pos by simp
  have ic: "py_index col_w (int (length P mod C)) = Some (length P mod C)"
    using C cw by (intro py_index_nat) simp
  have ig: "py_index grid (int (length P div C)) = Some (length P div C)"
    using lt by (rule py_index_nat)
  have ih: "py_index row_h (int (length P div C)) = Some (length P div C)"
    using lt rh by (intro py_index_nat) simp
  have col: "col_w[length P mod C := max (col_w ! (length P mod C)) (width (objs x))]
       = map (col_width objs C (P @ [x])) [0..<C]"
    using col_update_eq [OF C, of objs P x] cw by simp
  have ng: "\<not> int (length grid) \<le> int (length P div C)" using lt by simp
  show ?thesis
    using C lt by (simp add: grid_step_def Let_def ic ig ih col flip: of_nat_div of_nat_mod)
qed


lemma grid_inv_new_row:
  assumes C: "0 < C" and inv: "grid_inv objs C P (col_w, row_h, grid)"
    and pos: "length grid = length P div C" "length P mod C = 0"
  shows "grid_inv objs C (P @ [x])
           (map (col_width objs C (P @ [x])) [0..<C],
            row_h @ [max 0 (snd (dimensions (objs x)))],
            grid @ [[x]])"
proof -
  let ?k = "length P"
  from inv have rh: "row_h = map (row_height objs C P) [0..<length grid]"
    and cc: "concat grid = P"
    and el: "\<forall>j < ?k. j div C < length grid \<and> j mod C < length (grid ! (j div C))
                        \<and> grid ! (j div C) ! (j mod C) = P ! j"
    unfolding grid_inv_def prod.case by blast+
  have below: "\<forall>j < ?k. j div C < length grid" using el by blast
  have "row_height objs C P (length grid) = 0"
    using C below by (rule row_height_beyond)
  then have new: "row_height objs C (P @ [x]) (length grid) = max 0 (snd (dimensions (objs x)))"
    using pos(1) by (simp add: row_height_snoc)
  have old: "map (row_height objs C (P @ [x])) [0..<length grid] = row_h"
    unfolding rh by (rule map_cong) (auto simp: row_height_snoc pos(1))
  have rows: "row_h @ [max 0 (snd (dimensions (objs x)))]
      = map (row_height objs C (P @ [x])) [0..<length (grid @ [[x]])]"
    using new old by simp
  have len: "length (grid @ [[x]]) = (length (P @ [x]) - 1) div C + 1"
    using pos(1) by simp
  have lst: "length (last (grid @ [[x]])) = (length (P @ [x]) - 1) mod C + 1"
    using pos(2) by simp
  have elems: "\<forall>j < length (P @ [x]). j div C < length (grid @ [[x]])
      \<and> j mod C < length ((grid @ [[x]]) ! (j div C))
      \<and> (grid @ [[x]]) ! (j div C) ! (j mod C) = (P @ [x]) ! j"
  proof (intro allI impI)
    fix j assume "j < length (P @ [x])"
    then consider "j < ?k" | "j = ?k" by fastforce
    then show "j div C < length (grid @ [[x]])
      \<and> j mod C < length ((grid @ [[x]]) ! (j div C))
      \<and> (grid @ [[x]]) ! (j div C) ! (j mod C) = (P @ [x]) ! j"
    proof cases
      case 1
      with el show ?thesis by (auto simp: nth_append)
    next
      case 2
      with pos show ?thesis by (simp add: nth_append)
    qed
  qed
  show ?thesis
    unfolding grid_inv_def prod.case
    using rows len lst elems cc by simp
qed

lemma list_update_last:
  "xs \<noteq> [] \<Longrightarrow> xs[length xs - 1 := v] = butlast xs @ [v]"
  by (induction xs rule: rev_induct) simp_all

lemma grid_inv_same_row:
  assumes C: "0 < C" and inv: "grid_inv objs C P (col_w, row_h, grid)"
    and pos: "Suc (length P div C) = length grid" "grid \<noteq> []"
      "length (last grid) = length P mod C"
  shows "grid_inv objs C (P @ [x])
           (map (col_width objs C (P @ [x])) [0..<C],
            row_h[length P div C := max (row_h ! (length P div C)) (snd (dimensions (objs x)))],
            grid[length P div C := grid ! (length P div C) @ [x]])"
proof -
  let ?k = "length P" and ?r = "length P div C"
  let ?grid = "grid[?r := grid ! ?r @ [x]]"
  from inv have rh: "row_h = map (row_height objs C P) [0..<length grid]"
    and cc: "concat grid = P"
    and el: "\<forall>j < ?k. j div C < length grid \<and> j mod C < length (grid ! (j div C))
                        \<and> grid ! (j div C) ! (j mod C) = P ! j"
    unfolding grid_inv_def prod.case by blast+
  have r: "?r = length grid - 1" and lt: "?r < length grid" using pos(1) by simp_all
  have lastr: "grid ! ?r = last grid" using pos(2) r by (simp add: last_conv_nth)
  have rows: "row_h[?r := max (row_h ! ?r) (snd (dimensions (objs x)))]
      = map (row_height objs C (P @ [x])) [0..<length ?grid]"
  proof (rule nth_equalityI)
    show "length (row_h[?r := max (row_h ! ?r) (snd (dimensions (objs x)))])
        = length (map (row_height objs C (P @ [x])) [0..<length ?grid])"
      by (simp add: rh)
  next
    fix i assume "i < length (row_h[?r := max (row_h ! ?r) (snd (dimensions (objs x)))])"
    then have i: "i < length grid" by (simp add: rh)
    then have "row_h ! i = row_height objs C P i" by (simp add: rh)
    moreover have "row_h ! ?r = row_height objs C P ?r" using lt by (simp add: rh)
    ultimately show "row_h[?r := max (row_h ! ?r) (snd (dimensions (objs x)))] ! i
        = map (row_height objs C (P @ [x])) [0..<length ?grid] ! i"
      using i by (simp add: nth_list_update row_height_snoc rh)
  qed
  have len: "length ?grid = (length (P @ [x]) - 1) div C + 1"
    using pos(1) by simp
  have lst: "length (last ?grid) = (length (P @ [x]) - 1) mod C + 1"
    using pos lt r lastr by (simp add: last_conv_nth)
  have "?grid = butlast grid @ [last grid @ [x]]"
    using list_update_last [OF pos(2), of "last grid @ [x]"] r lastr by simp
  then have "concat ?grid = concat (butlast grid @ [last grid]) @ [x]"
    by simp
  then have con: "concat ?grid = P @ [x]"
    using pos(2) cc by simp
  have elems: "\<forall>j < length (P @ [x]). j div C < length ?grid
      \<and> j mod C < length (?grid ! (j div C))
      \<and> ?grid ! (j div C) ! (j mod C) = (P @ [x]) ! j"
  proof (intro allI impI)
    fix j assume "j < length (P @ [x])"
    then consider "j < ?k" | "j = ?k" by fastforce
    then show "j div C < length ?grid
      \<and> j mod C < length (?grid ! (j div C))
      \<and> ?grid ! (j div C) ! (j mod C) = (P @ [x]) ! j"
    proof cases
      case 1
      with el have a: "j div C < length grid" "j mod C < length (grid ! (j div C))"
        "grid ! (j div C) ! (j mod C) = P ! j" by blast+
      show ?thesis
      proof (cases "j div C = ?r")
        case True
        with a lt 1 show ?thesis by (simp add: nth_append)
      next
        case False
        with a 1 show ?thesis by (simp add: nth_append)
      qed
    next
      case 2
      with lt lastr pos(3) show ?thesis by (simp add: nth_append)
    qed
  qed
  show ?thesis
    unfolding grid_inv_def prod.case
    using rows len lst elems con by simp
qed

lemma grid_step_inv:
  assumes C: "0 < C" and inv: "grid_inv objs C P st"
  shows "\<exists>st'. grid_step objs (int C) (length P, x) st = Inr st' \<and> grid_inv objs C (P @ [x]) st'"
proof -
  obtain col_w row_h grid where st: "st = (col_w, row_h, grid)" by (cases st)
  from inv st have len: "length grid = (if P = [] then 0 else (length P - 1) div C + 1)"
    and last: "P \<noteq> [] \<longrightarrow> length (last grid) = (length P - 1) mod C + 1"
    unfolding grid_inv_def prod.case by blast+
  from inv st have inv': "grid_inv objs C P (col_w, row_h, grid)" by simp
  from grid_position [OF C len last] show ?thesis
  proof
    assume a: "length grid = length P div C \<and> length P mod C = 0"
    then have a1: "length grid = length P div C" and a2: "length P mod C = 0" by blast+
    show ?thesis
      unfolding st
      using grid_step_new_row [OF C inv' a1 a2, of x] grid_inv_new_row [OF C inv' a1 a2, of x]
      by (intro exI conjI)
  next
    assume a: "Suc (length P div C) = length grid \<and> grid \<noteq> [] \<and> length (last grid) = length P mod C"
    then have a1: "Suc (length P div C) = length grid" and a2: "grid \<noteq> []"
      and a3: "length (last grid) = length P mod C" by blast+
    show ?thesis
      unfolding st
      using grid_step_same_row [OF C inv' a1, of x] grid_inv_same_row [OF C inv' a1 a2 a3, of x]
      by (intro exI conjI)
  qed
qed

lemma grid_loop_inv:
  assumes C: "0 < C" and inv: "grid_inv objs C P st"
  shows "\<exists>st'. grid_loop objs (int C) (enumerate (length P) xs) st = Inr st'
           \<and> grid_inv objs C (P @ xs) st'"
  using inv
proof (induction xs arbitrary: P st)
  case Nil
  then show ?case by simp
next
  case (Cons x xs)
  from grid_step_inv [OF C Cons.prems, of x] obtain st1 where
    s: "grid_step objs (int C) (length P, x) st = Inr st1" and i: "grid_inv objs C (P @ [x]) st1"
    by blast
  from Cons.IH [OF i] s show ?case by simp
qed

lemma grid_inv_init: "grid_inv objs C [] (replicate C 0, [], [])"
proof -
  have "col_width objs C [] c = 0" for c
    by (simp add: col_width_def)
  then have "map (col_width objs C []) [0..<C] = replicate C 0"
    by (intro nth_equalityI) simp_all
  then show ?thesis by (simp add: grid_inv_def)
qed


definition assign :: "(node_id \<times> real \<times> real) list \<Rightarrow> node_store \<Rightarrow> node_store" where
  "assign ps objs = fold (\<lambda>(n, loc) os. set_location os n loc) ps objs"

lemma assign_other: "n \<notin> fst ` set ps \<Longrightarrow> assign ps objs n = objs n"
  unfolding assign_def
  by (induction ps arbitrary: objs) (auto simp: set_location_def)

lemma assign_hit:
  "distinct (map fst ps) \<Longrightarrow> (n, loc) \<in> set ps \<Longrightarrow>
     assign ps objs n = (objs n)\<lparr>location := loc\<rparr>"
proof (induction ps arbitrary: objs)
  case Nil
  then show ?case by simp
next
  case (Cons p ps)
  obtain m l where p: "p = (m, l)" by (cases p)
  have step: "assign (p # ps) objs = assign ps (set_location objs m l)"
    by (simp add: assign_def p)
  show ?case
  proof (cases "(n, loc) = (m, l)")
    case True
    with Cons.prems p have "n \<notin> fst ` set ps" by auto
    then have "assign ps (set_location objs m l) n = set_location objs m l n"
      by (rule assign_other)
    with True step show ?thesis by (simp add: set_location_def)
  next
    case False
    with Cons.prems p have mem: "(n, loc) \<in> set ps" and d: "distinct (map fst ps)" by auto
    with Cons.prems p have "n \<noteq> m" by (auto simp: image_iff)
    then have "set_location objs m l n = objs n" by (simp add: set_location_def)
    with Cons.IH [OF d mem, of "set_location objs m l"] step show ?thesis
      by simp
  qed
qed

definition row_cells ::
  "real list \<Rightarrow> real \<Rightarrow> real \<Rightarrow> real \<Rightarrow> node_id list \<Rightarrow> (node_id \<times> real \<times> real) list" where
  "row_cells col_w origin_x gap_x y row =
     map (\<lambda>(c, n). (n, (origin_x + sum_list (take c col_w) + real c * gap_x, y))) (enumerate 0 row)"

definition grid_cells ::
  "real list \<Rightarrow> real list \<Rightarrow> real \<Rightarrow> real \<Rightarrow> real \<Rightarrow> real \<Rightarrow> node_id list list
     \<Rightarrow> (node_id \<times> real \<times> real) list" where
  "grid_cells col_w row_h origin_x origin_y gap_x gap_y grid =
     concat (map (\<lambda>(r, row). row_cells col_w origin_x gap_x
                    (origin_y - sum_list (take r row_h) - real r * gap_y) row)
               (enumerate 0 grid))"

lemma place_row_assign:
  "place_row col_w origin_x gap_x y row objs = assign (row_cells col_w origin_x gap_x y row) objs"
  by (simp add: place_row_def assign_def row_cells_def fold_map comp_def case_prod_unfold)

lemma place_grid_assign:
  "place_grid col_w row_h origin_x origin_y gap_x gap_y grid objs
     = assign (grid_cells col_w row_h origin_x origin_y gap_x gap_y grid) objs"
proof -
  have "fold (\<lambda>(r, row). place_row col_w origin_x gap_x
                 (origin_y - sum_list (take r row_h) - real r * gap_y) row) es objs
      = assign (concat (map (\<lambda>(r, row). row_cells col_w origin_x gap_x
                    (origin_y - sum_list (take r row_h) - real r * gap_y) row) es)) objs"
    for es :: "(nat \<times> node_id list) list"
  proof (induction es arbitrary: objs)
    case Nil
    show ?case by (simp add: assign_def)
  next
    case (Cons e es)
    obtain r row where e: "e = (r, row)" by (cases e)
    show ?case
      using Cons.IH by (simp add: e place_row_assign) (simp add: assign_def)
  qed
  then show ?thesis by (simp add: place_grid_def grid_cells_def)
qed

lemma map_fst_row_cells: "map fst (row_cells col_w origin_x gap_x y row) = row"
proof -
  have "map fst (row_cells col_w origin_x gap_x y row) = map snd (enumerate 0 row)"
    by (simp add: row_cells_def comp_def case_prod_unfold)
  then show ?thesis by simp
qed

lemma map_fst_grid_cells:
  "map fst (grid_cells col_w row_h origin_x origin_y gap_x gap_y grid) = concat grid"
proof -
  have "map fst (grid_cells col_w row_h origin_x origin_y gap_x gap_y grid)
      = concat (map snd (enumerate 0 grid))"
    by (simp add: grid_cells_def map_concat comp_def case_prod_unfold map_fst_row_cells)
  then show ?thesis by simp
qed

lemma grid_cells_member:
  assumes "r < length grid" and "c < length (grid ! r)"
  shows "(grid ! r ! c,
          (origin_x + sum_list (take c col_w) + real c * gap_x,
           origin_y - sum_list (take r row_h) - real r * gap_y))
         \<in> set (grid_cells col_w row_h origin_x origin_y gap_x gap_y grid)"
proof -
  from assms(1) have "(r, grid ! r) \<in> set (enumerate 0 grid)"
    by (simp add: in_set_enumerate_eq)
  moreover from assms(2) have "(c, grid ! r ! c) \<in> set (enumerate 0 (grid ! r))"
    by (simp add: in_set_enumerate_eq)
  then have "(grid ! r ! c,
          (origin_x + sum_list (take c col_w) + real c * gap_x,
           origin_y - sum_list (take r row_h) - real r * gap_y))
      \<in> set (row_cells col_w origin_x gap_x
                 (origin_y - sum_list (take r row_h) - real r * gap_y) (grid ! r))"
    unfolding row_cells_def by force
  ultimately show ?thesis unfolding grid_cells_def by force
qed


lemma list_min_Min: "xs \<noteq> [] \<Longrightarrow> list_min xs = Min (set xs)"
  by (induction xs rule: list_min.induct) simp_all

lemma list_max_Max: "xs \<noteq> [] \<Longrightarrow> list_max xs = Max (set xs)"
  by (induction xs rule: list_max.induct) simp_all

lemma sum_take_map_upt:
  "c \<le> n \<Longrightarrow> sum_list (take c (map f [0..<n])) = (\<Sum>j<c. (f j :: real))"
proof -
  assume "c \<le> n"
  then have "take c (map f [0..<n]) = map f [0..<c]"
    by (simp add: take_map min_def)
  then show ?thesis
    by (simp add: interv_sum_list_conv_sum_set_nat atLeast0LessThan)
qed

lemma keys_attr_parents_fold:
  "fst ` set (fold (\<lambda>attr d. case g attr of None \<Rightarrow> d | Some p \<Rightarrow> AList.update attr p d) as d0)
     \<subseteq> set as \<union> fst ` set d0"
proof (induction as arbitrary: d0)
  case Nil
  show ?case by simp
next
  case (Cons a as)
  show ?case
  proof (cases "g a")
    case None
    with Cons [of d0] show ?thesis by auto
  next
    case (Some p)
    have "fst ` set (AList.update a p d0) = {a} \<union> fst ` set d0" by (rule dom_update)
    with Cons [of "AList.update a p d0"] Some show ?thesis by auto
  qed
qed

lemma keys_attr_parents: "fst ` set (attr_parents objs as rs) \<subseteq> set as"
  using keys_attr_parents_fold [of _ as "[]"] unfolding attr_parents_def by simp

lemma place_attrs_other: "n \<notin> fst ` set ps \<Longrightarrow> place_attrs ps objs n = objs n"
  unfolding place_attrs_def
  by (induction ps arbitrary: objs) (auto simp: set_location_def Let_def)


lemma layout_nodes_grid_result:
  assumes cols: "0 < cols" and ne: "regular_nodes objs ns \<noteq> []"
  shows "\<exists>col_w row_h grid.
     grid_inv objs cols (sort_nodes objs (regular_nodes objs ns)) (col_w, row_h, grid)
     \<and> layout_nodes_grid objs ns (int cols) gap_x gap_y =
         Inr (place_attrs (attr_parents objs (attr_nodes objs ns) (regular_nodes objs ns))
               (place_grid col_w row_h
                  (Min (loc_x objs ` set (regular_nodes objs ns)))
                  (Max (loc_y objs ` set (regular_nodes objs ns)))
                  gap_x gap_y grid objs))"
proof -
  let ?S = "sort_nodes objs (regular_nodes objs ns)"
  have "length ?S = length (regular_nodes objs ns)"
    by (simp add: sort_nodes_def)
  with ne have S1: "?S \<noteq> []" by (cases ?S) auto
  have S2: "set ?S = set (regular_nodes objs ns)"
    by (simp add: sort_nodes_def)
  note S = S1 S2
  from grid_loop_inv [OF cols grid_inv_init, of objs ?S] obtain st where
    loop: "grid_loop objs (int cols) (enumerate 0 ?S) (replicate cols 0, [], []) = Inr st"
    and inv: "grid_inv objs cols ?S st" by auto
  obtain col_w row_h grid where st: "st = (col_w, row_h, grid)" by (cases st)
  from ne have ns: "ns \<noteq> []" by (auto simp: regular_nodes_def)
  have ox: "list_min (map (loc_x objs) ?S) = Min (loc_x objs ` set (regular_nodes objs ns))"
    using S by (simp add: list_min_Min)
  have oy: "list_max (map (loc_y objs) ?S) = Max (loc_y objs ` set (regular_nodes objs ns))"
    using S by (simp add: list_max_Max)
  have "layout_nodes_grid objs ns (int cols) gap_x gap_y =
         Inr (place_attrs (attr_parents objs (attr_nodes objs ns) (regular_nodes objs ns))
               (place_grid col_w row_h
                  (Min (loc_x objs ` set (regular_nodes objs ns)))
                  (Max (loc_y objs ` set (regular_nodes objs ns)))
                  gap_x gap_y grid objs))"
    using ne ns by (simp add: layout_nodes_grid_def Let_def loop st ox oy)
  with inv st show ?thesis by blast
qed

text \<open>
  Claim C8, amended. For a list of distinct nodes and a positive number of columns,
  \<open>layout_nodes_grid\<close> returns; the nodes of the list that are not generated attribute
  nodes are sorted by descending y and then ascending x, and the node at index \<open>i\<close>
  of the sorted list is placed at row \<open>i div cols\<close>, column \<open>i mod cols\<close>:
  \<open>x = origin_x + (sum of the widths of the columns before) + column * gap_x\<close> and
  \<open>y = origin_y - (sum of the heights of the rows before) - row * gap_y\<close>, where the origin
  is the least x and the greatest y of those nodes before the layout.
\<close>

theorem layout_nodes_grid_positions:
  assumes cols: "0 < cols" and dist: "distinct ns"
    and i: "i < length (regular_nodes objs ns)"
  shows "\<exists>objs'. layout_nodes_grid objs ns (int cols) gap_x gap_y = Inr objs'
     \<and> sorted (map (\<lambda>n. (- loc_y objs n, loc_x objs n)) (sort_nodes objs (regular_nodes objs ns)))
     \<and> mset (sort_nodes objs (regular_nodes objs ns)) = mset (regular_nodes objs ns)
     \<and> location (objs' (sort_nodes objs (regular_nodes objs ns) ! i))
         = cell_position objs cols gap_x gap_y (sort_nodes objs (regular_nodes objs ns)) i"
proof -
  let ?R = "regular_nodes objs ns"
  let ?S = "sort_nodes objs ?R"
  let ?ox = "Min (loc_x objs ` set ?R)" and ?oy = "Max (loc_y objs ` set ?R)"
  let ?atp = "attr_parents objs (attr_nodes objs ns) ?R"
  from i have ne: "?R \<noteq> []" by auto
  have len: "length ?S = length ?R" and set: "set ?S = set ?R" and dS: "distinct ?S"
    using dist by (simp_all add: sort_nodes_def regular_nodes_def)
  from layout_nodes_grid_result [OF cols ne, of gap_x gap_y] obtain col_w row_h grid where
    inv: "grid_inv objs cols ?S (col_w, row_h, grid)"
    and res: "layout_nodes_grid objs ns (int cols) gap_x gap_y =
         Inr (place_attrs ?atp (place_grid col_w row_h ?ox ?oy gap_x gap_y grid objs))"
    by blast
  let ?objs1 = "place_grid col_w row_h ?ox ?oy gap_x gap_y grid objs"
  let ?r = "i div cols" and ?c = "i mod cols"
  from inv have cw: "col_w = map (col_width objs cols ?S) [0..<cols]"
    and rh: "row_h = map (row_height objs cols ?S) [0..<length grid]"
    and cc: "concat grid = ?S"
    and el: "\<forall>j < length ?S. j div cols < length grid \<and> j mod cols < length (grid ! (j div cols))
                        \<and> grid ! (j div cols) ! (j mod cols) = ?S ! j"
    unfolding grid_inv_def prod.case by blast+
  from el i len have r: "?r < length grid" and c: "?c < length (grid ! ?r)"
    and at: "grid ! ?r ! ?c = ?S ! i" by simp_all
  have "?S ! i \<in> set ?R" using i len set by (metis nth_mem)
  then have "\<not> is_tmp_attr (objs (?S ! i))" by (simp add: regular_nodes_def)
  then have "?S ! i \<notin> set (attr_nodes objs ns)" by (simp add: attr_nodes_def)
  with keys_attr_parents [of objs "attr_nodes objs ns" ?R] have "?S ! i \<notin> fst ` set ?atp" by blast
  then have final: "place_attrs ?atp ?objs1 (?S ! i) = ?objs1 (?S ! i)"
    by (rule place_attrs_other)
  have "distinct (map fst (grid_cells col_w row_h ?ox ?oy gap_x gap_y grid))"
    using dS by (simp add: map_fst_grid_cells cc)
  from assign_hit [OF this grid_cells_member [OF r c], of objs]
  have "location (?objs1 (?S ! i)) =
          (?ox + sum_list (take ?c col_w) + real ?c * gap_x,
           ?oy - sum_list (take ?r row_h) - real ?r * gap_y)"
    by (simp add: place_grid_assign at)
  moreover have "sum_list (take ?c col_w) = (\<Sum>j<?c. col_width objs cols ?S j)"
    unfolding cw using cols by (intro sum_take_map_upt) simp
  moreover have "sum_list (take ?r row_h) = (\<Sum>j<?r. row_height objs cols ?S j)"
    unfolding rh using r by (intro sum_take_map_upt) simp
  ultimately have "location (?objs1 (?S ! i)) = cell_position objs cols gap_x gap_y ?S i"
    by (simp add: cell_position_def set)
  with final res show ?thesis
    by (simp add: sort_nodes_def)
qed


text \<open>
  Claim C8, as stated, takes the origin from the whole input list. In the example the
  least x of the input is \<open>-900\<close>, that of the attribute node 14, and the greatest y
  is 300; with two columns the node at row 0, column 0 is node 12, which the layout
  places at \<open>x = 0\<close>, the least x of the regular nodes, and node 14 is not placed in
  the grid but 150 to the left of node 11.
\<close>

theorem attribute_node_origin_counterexample:
  "map (loc_x demo_store) [11, 12, 13, 14] = [100, 0, 40, - 900]
   \<and> regular_nodes demo_store [11, 12, 13, 14] = [11, 12, 13]
   \<and> final_locations (layout_nodes_grid demo_store [11, 12, 13, 14] 2 120 80) [11, 12, 13, 14]
     = Inr [(0, 100), (0, 300), (320, 300), (- 150, 100)]"
  by code_simp

lemma demo_sorted: "sort_nodes demo_store (regular_nodes demo_store [11, 12, 13, 14]) = [12, 13, 11]"
  by code_simp

lemma demo_cell: "cell_position demo_store 2 120 80 [12, 13, 11] 2 = (0, 100)"
  by code_simp

theorem layout_nodes_grid_positions_witness:
  "0 < (2::nat) \<and> distinct [11::nat, 12, 13, 14]
   \<and> (2::nat) < length (regular_nodes demo_store [11, 12, 13, 14])
   \<and> sort_nodes demo_store (regular_nodes demo_store [11, 12, 13, 14]) = [12, 13, 11]
   \<and> final_locations (layout_nodes_grid demo_store [11, 12, 13, 14] 2 120 80) [11] = Inr [(0, 100)]
   \<and> cell_position demo_store 2 120 80 [12, 13, 11] 2 = (0, 100)"
proof -
  have len: "(2::nat) < length (regular_nodes demo_store [11, 12, 13, 14])"
    by code_simp
  have d: "distinct [11::nat, 12, 13, 14]" by simp
  from layout_nodes_grid_positions [of 2 "[11, 12, 13, 14]" 2 demo_store 120 80, OF _ d len]
  obtain objs' where "layout_nodes_grid demo_store [11, 12, 13, 14] 2 120 80 = Inr objs'"
    and "location (objs' ([12, 13, 11] ! 2)) = cell_position demo_store 2 120 80 [12, 13, 11] 2"
    unfolding demo_sorted by auto
  then have "final_locations (layout_nodes_grid demo_store [11, 12, 13, 14] 2 120 80) [11] = Inr [(0, 100)]"
    by (simp add: final_locations_def demo_cell)
  with len d demo_sorted demo_cell show ?thesis by simp
qed



lemma layout_nodes_grid_total:
  assumes "0 < cols"
  shows "\<exists>objs'. layout_nodes_grid objs ns (int cols) gap_x gap_y = Inr objs'"
proof (cases "regular_nodes objs ns = []")
  case True
  then show ?thesis by (simp add: layout_nodes_grid_def Let_def)
next
  case False
  from layout_nodes_grid_result [OF assms False, of gap_x gap_y] show ?thesis by blast
qed

lemma shift_x_other: "n \<notin> set ns \<Longrightarrow> shift_x dx ns objs n = objs n"
  unfolding shift_x_def
  by (induction ns arbitrary: objs) (auto simp: set_location_def)

lemma shift_x_member:
  "distinct ns \<Longrightarrow> n \<in> set ns \<Longrightarrow>
     shift_x dx ns objs n = (objs n)\<lparr>location := (loc_x objs n + dx, loc_y objs n)\<rparr>"
proof (induction ns arbitrary: objs)
  case Nil
  then show ?case by simp
next
  case (Cons m ns)
  let ?objs = "set_location objs m (loc_x objs m + dx, loc_y objs m)"
  have step: "shift_x dx (m # ns) objs = shift_x dx ns ?objs"
    by (simp add: shift_x_def)
  show ?case
  proof (cases "n = m")
    case True
    with Cons.prems have "n \<notin> set ns" by simp
    then have "shift_x dx ns ?objs n = ?objs n" by (rule shift_x_other)
    with True step show ?thesis by (simp add: set_location_def)
  next
    case False
    with Cons.prems have "n \<in> set ns" and "distinct ns" by simp_all
    from Cons.IH [OF this(2,1), of ?objs]
    have "shift_x dx ns ?objs n = (?objs n)\<lparr>location := (loc_x ?objs n + dx, loc_y ?objs n)\<rparr>" .
    moreover from False have "?objs n = objs n" by (simp add: set_location_def)
    ultimately show ?thesis using step by (simp add: loc_x_def loc_y_def)
  qed
qed

lemma set_parent_eq:
  "set_parent frame ns objs n = (if n \<in> set ns then (objs n)\<lparr>parent := Some frame\<rparr> else objs n)"
  unfolding set_parent_def
  by (induction ns arbitrary: objs) auto

lemma fold_max_start: "a \<le> fold max ids (a::nat)"
proof (induction ids arbitrary: a)
  case Nil
  show ?case by simp
next
  case (Cons i ids)
  have "a \<le> max i a" by simp
  also have "\<dots> \<le> fold max ids (max i a)" by (rule Cons.IH)
  finally show ?case by simp
qed

lemma fold_max_ge: "x \<in> set ids \<Longrightarrow> x \<le> fold max ids (a::nat)"
proof (induction ids arbitrary: a)
  case Nil
  then show ?case by simp
next
  case (Cons i ids)
  show ?case
  proof (cases "x = i")
    case True
    have "i \<le> max i a" by simp
    also have "\<dots> \<le> fold max ids (max i a)" by (rule fold_max_start)
    finally show ?thesis using True by simp
  next
    case False
    with Cons show ?thesis by simp
  qed
qed

lemma fresh_not_in: "Suc (fold max ids 0) \<notin> set ids"
  using fold_max_ge [of "Suc (fold max ids 0)" ids 0] by auto


text \<open>
  Claim C7, amended. For every non-empty list of distinct group nodes of the tree,
  \<open>place_group_left_of_used\<close> lays the group nodes out in a grid (6 columns, gaps 120
  and 80), then moves every group node by \<open>dx\<close> along x, so that the greatest x of
  the group nodes is the least x of the used nodes (0 when there are none) minus the
  margin; every group node gets the new frame as its parent, and the frame, which is
  not one of the tree's old nodes, is returned.
\<close>

theorem place_group_left_of_used_correct:
  assumes ne: "group_nodes \<noteq> []" and dist: "distinct group_nodes"
    and own: "set group_nodes \<subseteq> set tree_nodes"
  shows "\<exists>objs1 objs' frame.
      layout_nodes_grid objs group_nodes 6 120 80 = Inr objs1
    \<and> place_group_left_of_used objs tree_nodes group_nodes used_nodes margin
        = Inr (objs', tree_nodes @ [frame], Some frame)
    \<and> frame \<notin> set tree_nodes
    \<and> (\<forall>n \<in> set group_nodes.
          location (objs' n)
            = (loc_x objs1 n + group_shift objs1 group_nodes used_nodes margin, loc_y objs1 n)
          \<and> parent (objs' n) = Some frame)
    \<and> Max (loc_x objs' ` set group_nodes) = used_min_x objs1 used_nodes - margin"
proof -
  from layout_nodes_grid_total [of 6 objs group_nodes 120 80] obtain objs1 where
    lay: "layout_nodes_grid objs group_nodes 6 120 80 = Inr objs1" by auto
  let ?dx = "group_shift objs1 group_nodes used_nodes margin"
  let ?objs2 = "shift_x ?dx group_nodes objs1"
  let ?frame = "Suc (fold max tree_nodes 0)"
  let ?objs3 = "?objs2(?frame := new_node ''NodeFrame'')"
  let ?objs4 = "?objs3(?frame := (?objs3 ?frame)
                   \<lparr>label := ''The Material Editor Exterminatus'',
                    location := (list_min (map (loc_x ?objs2) group_nodes) - 40,
                                 list_max (map (loc_y ?objs2) group_nodes) + 40),
                    width := 0\<rparr>)"
  let ?objs' = "set_parent ?frame group_nodes ?objs4"
  have umin: "(if used_nodes = [] then 0 else list_min (map (loc_x objs1) used_nodes))
      = used_min_x objs1 used_nodes"
    by (simp add: used_min_x_def list_min_Min)
  have gmax: "list_max (map (loc_x objs1) group_nodes) = Max (loc_x objs1 ` set group_nodes)"
    using ne by (simp add: list_max_Max)
  have res: "place_group_left_of_used objs tree_nodes group_nodes used_nodes margin
      = Inr (?objs', tree_nodes @ [?frame], Some ?frame)"
    using ne
    by (simp add: place_group_left_of_used_def lay Let_def nodes_new_def umin gmax group_shift_def)
  have fresh: "?frame \<notin> set tree_nodes" by (rule fresh_not_in)
  have each: "location (?objs' n) = (loc_x objs1 n + ?dx, loc_y objs1 n)
      \<and> parent (?objs' n) = Some ?frame" if n: "n \<in> set group_nodes" for n
  proof -
    from n own fresh have "n \<noteq> ?frame" by blast
    then have "?objs4 n = ?objs2 n" by simp
    also have "\<dots> = (objs1 n)\<lparr>location := (loc_x objs1 n + ?dx, loc_y objs1 n)\<rparr>"
      using dist n by (rule shift_x_member)
    finally show ?thesis using n by (simp add: set_parent_eq)
  qed
  have "loc_x ?objs' n = loc_x objs1 n + ?dx" if "n \<in> set group_nodes" for n
    using each [OF that] unfolding loc_x_def by (simp only: fst_conv)
  then have "loc_x ?objs' ` set group_nodes = (\<lambda>n. loc_x objs1 n + ?dx) ` set group_nodes"
    by (intro image_cong refl)
  also have "Max \<dots> = Max (loc_x objs1 ` set group_nodes) + ?dx"
    using ne by (intro Max_add_commute) simp_all
  also have "\<dots> = used_min_x objs1 used_nodes - margin"
    by (simp add: group_shift_def)
  finally have mx: "Max (loc_x ?objs' ` set group_nodes) = used_min_x objs1 used_nodes - margin" .
  from lay res fresh each mx show ?thesis by blast
qed


text \<open>
  Claim C7, as stated, holds for every non-empty list. When the list names node 11
  twice, the node is moved twice: with no used nodes and margin 400 it ends at
  \<open>x = -1160\<close>, not at \<open>-400\<close>.
\<close>

theorem repeated_node_counterexample:
  "placed (place_group_left_of_used demo_store [11, 12, 13, 14, 15] [11, 11] [] 400) [11]
     = Inr ([((- 1160, 50), Some 16)], [11, 12, 13, 14, 15, 16], Some 16)"
  by code_simp

theorem place_group_left_of_used_correct_witness:
  "[11, 12, 14] \<noteq> ([] :: nat list) \<and> distinct [11::nat, 12, 14]
   \<and> set [11::nat, 12, 14] \<subseteq> set [11, 12, 13, 14, 15]
   \<and> placed (place_group_left_of_used demo_store [11, 12, 13, 14, 15] [11, 12, 14] [15] 400)
        [11, 12, 14]
      = Inr ([((- 400, 300), Some 16), ((- 720, 300), Some 16), ((- 550, 300), Some 16)],
             [11, 12, 13, 14, 15, 16], Some 16)
   \<and> loc_x demo_store 15 - 400 = - 400"
proof -
  have a: "[11, 12, 14] \<noteq> ([] :: nat list)" and b: "distinct [11::nat, 12, 14]"
    and c: "set [11::nat, 12, 14] \<subseteq> set [11, 12, 13, 14, 15]" by simp_all
  have e: "placed (place_group_left_of_used demo_store [11, 12, 13, 14, 15] [11, 12, 14] [15] 400)
        [11, 12, 14]
      = Inr ([((- 400, 300), Some 16), ((- 720, 300), Some 16), ((- 550, 300), Some 16)],
             [11, 12, 13, 14, 15, 16], Some 16)"
    by code_simp
  have f: "loc_x demo_store 15 - 400 = - 400" by code_simp
  from place_group_left_of_used_correct [OF a b c, of demo_store "[15]" 400] a b c e f
  show ?thesis by blast
qed

end
